theory Spec2Isabelle
  imports Complex_Main "HOL-Library.Word"
begin

section \<open>rPPG signal processing: the model\<close>

text \<open>
  The development follows \<^verbatim>\<open>signal_processing.cpp\<close>: detrending, the two-stage IIR
  band-pass, the recursive radix-2 FFT, the power spectrum, the peak search and the three
  exported entry points.

  Reading of the C++ types.
  \<^item> \<^verbatim>\<open>float\<close> is read as \<^typ>\<open>real\<close> and \<^verbatim>\<open>std::complex<float>\<close> as \<^typ>\<open>complex\<close>:
    every floating-point operation is the exact operation, and a decimal literal is its
    decimal value. Rounding, infinities and NaN are outside the model. A quotient whose
    divisor is zero is an infinity or NaN in the code and 0 in HOL: the divisors of the
    filter coefficients are shown nonzero for a band that passes validation, and the
    divisor of the regression slope for at least two samples.
  \<^item> The constant \<^verbatim>\<open>PI = 3.14159265359f\<close> is a parameter \<open>PI\<close> of every definition that
    uses it. Each theorem about such a definition holds for every value of \<open>PI\<close>, the
    literal included; only the equality of the FFT with the discrete Fourier transform
    and the worked window of the rate estimates instantiate it with the number \<^term>\<open>pi\<close>.
  \<^item> A \<^verbatim>\<open>float*\<close> argument is a \<^typ>\<open>real list option\<close>: \<open>None\<close> is the null pointer,
    \<open>Some b\<close> a pointer to the samples \<open>b\<close>. The \<^verbatim>\<open>length\<close> argument is a separate
    \<^typ>\<open>int\<close>, as in the code. A function that writes a buffer returns its new content.
    The input and the output of a call are distinct buffers, as at both call sites of the
    file; every function reads its input completely before it writes its output.
  \<^item> An access outside a buffer or a vector is undefined behaviour in C++; the model
    returns \<open>Inl OutOfBounds\<close>. Where all loops of a function run over the indices
    \<open>0 ..< length\<close> of a buffer, the test is made once, where the first loop starts.
  \<^item> \<^verbatim>\<open>int\<close> sizes and indices are unbounded integers, and \<^verbatim>\<open>fft_size <<= 1\<close> is a
    multiplication by 2: they are bounded by the number of samples of a buffer, which
    in the 32-bit address space of the WebAssembly target is below \<open>2 ^ 30\<close>. The one
    integer expression that leaves the 32-bit range on such buffers is the product
    \<^verbatim>\<open>i * i\<close> of the detrender, which is modelled on 32-bit words.
  \<^item> A counting loop \<^verbatim>\<open>for (int i = a; i < n; i++) body\<close> is \<open>for_loop a n body\<close> on the
    loop's state.
\<close>

datatype error = OutOfBounds | Diverges

function for_loop :: "nat \<Rightarrow> nat \<Rightarrow> (nat \<Rightarrow> 's \<Rightarrow> 's) \<Rightarrow> 's \<Rightarrow> 's" where
  "for_loop i n body s = (if i < n then for_loop (Suc i) n body (body i s) else s)"
  by pat_completeness auto
termination
  by (relation "measure (\<lambda>(i, n, body, s). n - i)") auto

declare for_loop.simps [simp del]

subsection \<open>Band-pass filter\<close>

definition bandpass_filter ::
  "real \<Rightarrow> real list option \<Rightarrow> real list option \<Rightarrow> int \<Rightarrow> real \<Rightarrow> real \<Rightarrow> real
    \<Rightarrow> error + int \<times> real list option" where
  "bandpass_filter PI input output len sample_rate low_cutoff high_cutoff =
     (case (input, output) of
        (Some inp, Some out) \<Rightarrow>
          if len \<le> 0 then Inr (0, output)
          else
            let nyquist = sample_rate / 2;
                low_norm = low_cutoff / nyquist;
                high_norm = high_cutoff / nyquist
            in
              if low_norm \<le> 0 \<or> high_norm \<ge> 1 \<or> low_norm \<ge> high_norm then Inr (0, output)
              else if int (length inp) < len \<or> int (length out) < len then Inl OutOfBounds
              else
                let rc_low = 1 / (2 * PI * low_cutoff);
                    rc_high = 1 / (2 * PI * high_cutoff);
                    dt = 1 / sample_rate;
                    alpha_low = dt / (rc_low + dt);
                    alpha_high = rc_high / (rc_high + dt);
                    n = nat len;
                    temp = replicate n 0;
                    temp = temp[0 := inp ! 0];
                    temp = for_loop 1 n
                      (\<lambda>i temp. temp[i := alpha_high * (temp ! (i - 1) + inp ! i - inp ! (i - 1))])
                      temp;
                    out = out[0 := temp ! 0];
                    out = for_loop 1 n
                      (\<lambda>i out. out[i := out ! (i - 1) + alpha_low * (temp ! i - out ! (i - 1))])
                      out
                in Inr (1, Some out)
      | _ \<Rightarrow> Inr (0, output))"

text \<open>
  The recurrences of the specification, as functions of the sample index: the
  high-pass stage over the input, and the low-pass stage over a sequence \<open>t\<close>.
\<close>

primrec cascade_highpass :: "real \<Rightarrow> real list \<Rightarrow> nat \<Rightarrow> real" where
  "cascade_highpass a x 0 = x ! 0"
| "cascade_highpass a x (Suc i) = a * (cascade_highpass a x i + x ! Suc i - x ! i)"

primrec cascade_lowpass :: "real \<Rightarrow> (nat \<Rightarrow> real) \<Rightarrow> nat \<Rightarrow> real" where
  "cascade_lowpass a t 0 = t 0"
| "cascade_lowpass a t (Suc i) = cascade_lowpass a t i + a * (t (Suc i) - cascade_lowpass a t i)"

definition band_valid :: "real \<Rightarrow> real \<Rightarrow> real \<Rightarrow> bool" where
  "band_valid sample_rate low_cutoff high_cutoff =
     (\<not> (low_cutoff / (sample_rate / 2) \<le> 0 \<or> high_cutoff / (sample_rate / 2) \<ge> 1
         \<or> low_cutoff / (sample_rate / 2) \<ge> high_cutoff / (sample_rate / 2)))"

text \<open>
  The filtered samples, by index: the low-pass recurrence over the high-pass
  recurrence over the input, with the coefficients the code computes.
\<close>

definition cascade_spec :: "real \<Rightarrow> real \<Rightarrow> real \<Rightarrow> real \<Rightarrow> real list \<Rightarrow> nat \<Rightarrow> real" where
  "cascade_spec PI sample_rate low_cutoff high_cutoff x =
     (let dt = 1 / sample_rate;
          rc_low = 1 / (2 * PI * low_cutoff);
          rc_high = 1 / (2 * PI * high_cutoff);
          alpha_low = dt / (rc_low + dt);
          alpha_high = rc_high / (rc_high + dt)
      in cascade_lowpass alpha_low (cascade_highpass alpha_high x))"

subsection \<open>Detrending\<close>

text \<open>
  The product \<^verbatim>\<open>i * i\<close> of two \<^verbatim>\<open>int\<close> values, as the 32-bit multiplication of the
  WebAssembly target computes it (two's complement, wrapping).
\<close>

definition mul_int32 :: "int \<Rightarrow> int \<Rightarrow> int" where
  "mul_int32 a b = sint ((word_of_int a :: 32 word) * word_of_int b)"

text \<open>
  \<open>detrend_signal\<close> in three parts, so that the sums of the regression have a name:
  \<open>remove_mean\<close> is the first two loops (the mean, then its subtraction in place),
  \<open>regression_sums\<close> the third loop, on the buffer \<open>remove_mean\<close> leaves, and
  \<open>detrend_signal\<close> the whole function. Its only caller, \<open>process_rppg_signals\<close>,
  has tested the pointer and the bounds before.
\<close>

definition remove_mean :: "real list \<Rightarrow> int \<Rightarrow> real list" where
  "remove_mean signal len =
     (let n = nat len;
          mean = for_loop 0 n (\<lambda>i mean. mean + signal ! i) 0;
          mean = mean / real_of_int len
      in for_loop 0 n (\<lambda>i signal. signal[i := signal ! i - mean]) signal)"

definition regression_sums :: "real list \<Rightarrow> int \<Rightarrow> real \<times> real \<times> real \<times> real" where
  "regression_sums signal len =
     for_loop 0 (nat len)
       (\<lambda>i (sum_x, sum_y, sum_xy, sum_x2).
          (sum_x + real i,
           sum_y + signal ! i,
           sum_xy + real i * signal ! i,
           sum_x2 + real_of_int (mul_int32 (int i) (int i))))
       (0, 0, 0, 0)"

definition detrend_signal :: "real list \<Rightarrow> int \<Rightarrow> real list" where
  "detrend_signal signal len =
     (let signal = remove_mean signal len;
          (sum_x, sum_y, sum_xy, sum_x2) = regression_sums signal len;
          slope = (real_of_int len * sum_xy - sum_x * sum_y)
                    / (real_of_int len * sum_x2 - sum_x * sum_x);
          intercept = (sum_y - slope * sum_x) / real_of_int len
      in for_loop 0 (nat len)
           (\<lambda>i signal. signal[i := signal ! i - (slope * real i + intercept)]) signal)"

text \<open>
  The denominator of the slope as \<open>detrend_signal\<close> computes it, and the two
  statistics of the specification: the arithmetic mean of the first \<open>n\<close> samples and
  their least-squares slope against the sample index.
\<close>

definition regression_denominator :: "real list \<Rightarrow> int \<Rightarrow> real" where
  "regression_denominator signal len =
     (case regression_sums (remove_mean signal len) len of
        (sum_x, sum_y, sum_xy, sum_x2) \<Rightarrow> real_of_int len * sum_x2 - sum_x * sum_x)"

definition mean_of :: "real list \<Rightarrow> nat \<Rightarrow> real" where
  "mean_of z n = (\<Sum>i<n. z ! i) / real n"

definition ls_slope :: "real list \<Rightarrow> nat \<Rightarrow> real" where
  "ls_slope z n =
     (real n * (\<Sum>i<n. real i * z ! i) - (\<Sum>i<n. real i) * (\<Sum>i<n. z ! i))
       / (real n * (\<Sum>i<n. (real i)\<^sup>2) - (\<Sum>i<n. real i)\<^sup>2)"

subsection \<open>FFT\<close>

text \<open>
  \<^verbatim>\<open>fft\<close> replaces the vector it is given; the model returns the new vector. The split
  loop is \<open>fft_divide\<close>, the combine loop \<open>fft_combine\<close>. For a vector of \<open>N\<close>
  elements the halves hold \<open>(N + 1) div 2\<close> and \<open>N div 2\<close> elements, so the reads
  \<open>even[k]\<close>, \<open>odd[k]\<close> and the writes \<open>data[k]\<close>, \<open>data[k + N/2]\<close> for
  \<open>k < N div 2\<close> are all in range. \<^verbatim>\<open>std::polar(1.0f, t)\<close> is \<open>cis t\<close>.
\<close>

definition fft_divide :: "complex list \<Rightarrow> complex list \<times> complex list" where
  "fft_divide data =
     for_loop 0 (length data)
       (\<lambda>i (evens, odds).
          if i mod 2 = 0 then (evens @ [data ! i], odds) else (evens, odds @ [data ! i]))
       ([], [])"

definition fft_combine :: "real \<Rightarrow> complex list \<Rightarrow> complex list \<Rightarrow> complex list \<Rightarrow> complex list" where
  "fft_combine PI evens odds data =
     (let N = length data
      in for_loop 0 (N div 2)
           (\<lambda>k data.
              let t = cis (- 2 * PI * real k / real N) * odds ! k;
                  data = data[k := evens ! k + t]
              in data[k + N div 2 := evens ! k - t])
           data)"

function fft :: "real \<Rightarrow> complex list \<Rightarrow> complex list" where
  "fft PI data =
     (if length data \<le> 1 then data
      else fft_combine PI (fft PI (fst (fft_divide data))) (fft PI (snd (fft_divide data))) data)"
  by pat_completeness auto
termination
proof (relation "measure (\<lambda>(PI, data). length data)")
  have split: "length (fst (for_loop i n
        (\<lambda>i (evens, odds).
          if i mod 2 = 0 then (evens @ [data ! i], odds) else (evens, odds @ [data ! i])) (es, os)))
        + (i + 1) div 2
      = length es + (n + 1) div 2
    \<and> length (snd (for_loop i n
        (\<lambda>i (evens, odds).
          if i mod 2 = 0 then (evens @ [data ! i], odds) else (evens, odds @ [data ! i])) (es, os)))
        + i div 2
      = length os + n div 2"
    if "i \<le> n" for i n and data es os :: "complex list"
    using that
  proof (induction "n - i" arbitrary: i es os)
    case 0
    then have "i = n" by simp
    then show ?case
      by (subst (1 2) for_loop.simps) simp
  next
    case (Suc d)
    then have "i < n" and d: "d = n - Suc i" and le: "Suc i \<le> n"
      by simp_all
    show ?case
    proof (cases "i mod 2 = 0")
      case True
      then have "Suc i div 2 = i div 2" "(Suc i + 1) div 2 = Suc ((i + 1) div 2)"
        by presburger+
      then show ?thesis
        using Suc.hyps(1) [OF d le, of "es @ [data ! i]" os] \<open>i < n\<close> True
        by (subst (1 2) for_loop.simps) simp
    next
      case False
      then have "Suc i div 2 = Suc (i div 2)" "(Suc i + 1) div 2 = (i + 1) div 2"
        by presburger+
      then show ?thesis
        using Suc.hyps(1) [OF d le, of es "os @ [data ! i]"] \<open>i < n\<close> False
        by (subst (1 2) for_loop.simps) simp
    qed
  qed
  show "wf (measure (\<lambda>(PI, data). length data))"
    by simp
  show "((PI, fst (fft_divide data)), (PI, data)) \<in> measure (\<lambda>(PI, data). length data)"
    if "\<not> length data \<le> 1" for PI :: real and data
    using that split [of 0 "length data" data "[]" "[]"] by (simp add: fft_divide_def)
  show "((PI, snd (fft_divide data)), (PI, data)) \<in> measure (\<lambda>(PI, data). length data)"
    if "\<not> length data \<le> 1" for PI :: real and data
    using that split [of 0 "length data" data "[]" "[]"] by (simp add: fft_divide_def)
qed

declare fft.simps [simp del]

subsection \<open>Power spectrum\<close>

text \<open>
  The loop \<^verbatim>\<open>while (fft_size < length) fft_size <<= 1\<close>. From a value that is not
  positive it would not end, so it is a partial function; from 1 it always returns.
\<close>

partial_function (option) fft_size_loop :: "int \<Rightarrow> int \<Rightarrow> int option" where
  "fft_size_loop fft_size len =
     (if fft_size < len then fft_size_loop (fft_size * 2) len else Some fft_size)"

text \<open>
  \<open>calculate_psd\<close> takes a pointer. A null pointer has no sample that may be read.
  With a negative \<open>length\<close> the zero-fill loop starts at a negative index.
\<close>

definition calculate_psd :: "real \<Rightarrow> real list option \<Rightarrow> int \<Rightarrow> error + real list" where
  "calculate_psd PI signal len =
     (case fft_size_loop 1 len of
        None \<Rightarrow> Inl Diverges
      | Some fft_size \<Rightarrow>
          let sig = (case signal of None \<Rightarrow> [] | Some b \<Rightarrow> b)
          in
            if len < 0 \<or> int (length sig) < len then Inl OutOfBounds
            else
              let n = nat len;
                  fft_data = replicate (nat fft_size) 0;
                  fft_data = for_loop 0 n (\<lambda>i d. d[i := Complex (sig ! i) 0]) fft_data;
                  fft_data = for_loop n (nat fft_size) (\<lambda>i d. d[i := Complex 0 0]) fft_data;
                  fft_data = for_loop 0 n
                    (\<lambda>i d.
                       let window = 0.5 * (1 - cos (2 * PI * real i / real_of_int (len - 1)))
                       in d[i := d ! i * complex_of_real window])
                    fft_data;
                  fft_data = fft PI fft_data;
                  psd = replicate (nat (fft_size div 2)) 0;
                  psd = for_loop 0 (nat (fft_size div 2))
                    (\<lambda>i psd. psd[i := (Re (fft_data ! i))\<^sup>2 + (Im (fft_data ! i))\<^sup>2])
                    psd
              in Inr psd)"

subsection \<open>Peak search\<close>

text \<open>
  \<^verbatim>\<open>static_cast<int>\<close> of a \<^verbatim>\<open>float\<close>: the fractional part is dropped. (The cast of a
  value outside the range of \<^verbatim>\<open>int\<close> is undefined in C++; the model has no such range.)
\<close>

definition float_to_int :: "real \<Rightarrow> int" where
  "float_to_int x = (if 0 \<le> x then \<lfloor>x\<rfloor> else \<lceil>x\<rceil>)"

text \<open>
  The scan \<^verbatim>\<open>for (int i = min_bin + 1; i <= max_bin; i++)\<close>, on the pair
  \<open>(max_power, peak_bin)\<close>; every read of \<open>psd[i]\<close> is checked.
\<close>

function peak_scan :: "real list \<Rightarrow> int \<Rightarrow> int \<Rightarrow> real \<times> int \<Rightarrow> error + real \<times> int" where
  "peak_scan psd i max_bin (max_power, peak_bin) =
     (if i \<le> max_bin then
        if 0 \<le> i \<and> i < int (length psd) then
          if psd ! nat i > max_power then peak_scan psd (i + 1) max_bin (psd ! nat i, i)
          else peak_scan psd (i + 1) max_bin (max_power, peak_bin)
        else Inl OutOfBounds
      else Inr (max_power, peak_bin))"
  by pat_completeness auto
termination
  by (relation "measure (\<lambda>(psd, i, max_bin, s). nat (max_bin + 1 - i))") auto

declare peak_scan.simps [simp del]

definition find_peak_frequency :: "real list \<Rightarrow> real \<Rightarrow> real \<Rightarrow> real \<Rightarrow> error + real" where
  "find_peak_frequency psd sample_rate min_freq max_freq =
     (let fft_size = int (length psd) * 2;
          freq_resolution = sample_rate / real_of_int fft_size;
          min_bin = float_to_int (min_freq / freq_resolution);
          max_bin = float_to_int (max_freq / freq_resolution);
          min_bin = max 1 min_bin;
          max_bin = min (int (length psd) - 1) max_bin;
          peak_bin = min_bin
      in
        if 0 \<le> min_bin \<and> min_bin < int (length psd) then
          let max_power = psd ! nat min_bin
          in case peak_scan psd (min_bin + 1) max_bin (max_power, peak_bin) of
               Inl e \<Rightarrow> Inl e
             | Inr (max_power, peak_bin) \<Rightarrow> Inr (real_of_int peak_bin * freq_resolution)
        else Inl OutOfBounds)"

subsection \<open>Entry points\<close>

text \<open>
  \<open>process_rppg_signals\<close> returns its code and the output buffer. The band-pass call
  gets the copy \<open>temp\<close> as input and the output buffer as output, and hands the output
  pointer back; the normalisation works on the buffer behind it.
  \<^verbatim>\<open>*std::max_element(output, output + length)\<close> is the greatest of the first \<open>length\<close>
  samples, \<^verbatim>\<open>*std::min_element\<close> the least. The two rate functions return a
  \<^verbatim>\<open>float\<close>; an out-of-bounds access inside them is the error of the call.
\<close>

definition process_rppg_signals ::
  "real \<Rightarrow> real list option \<Rightarrow> real list option \<Rightarrow> int \<Rightarrow> real \<Rightarrow> error + int \<times> real list option" where
  "process_rppg_signals PI input output len sample_rate =
     (case (input, output) of
        (Some inp, Some out) \<Rightarrow>
          if len \<le> 0 then Inr (0, output)
          else if int (length inp) < len \<or> int (length out) < len then Inl OutOfBounds
          else
            let n = nat len;
                out = for_loop 0 n (\<lambda>i out. out[i := inp ! i]) out;
                out = detrend_signal out len;
                temp = replicate n 0;
                temp = for_loop 0 n (\<lambda>i temp. temp[i := out ! i]) temp
            in case bandpass_filter PI (Some temp) (Some out) len sample_rate 0.8 3.0 of
                 Inl e \<Rightarrow> Inl e
               | Inr (ok, output) \<Rightarrow>
                   if ok = 0 then Inr (0, output)
                   else Inr (1, map_option
                     (\<lambda>out.
                        let max_val = Max (set (take n out));
                            min_val = Min (set (take n out));
                            rng = max_val - min_val
                        in if rng > 0
                           then for_loop 0 n (\<lambda>i out. out[i := (out ! i - min_val) / rng]) out
                           else out)
                     output)
      | _ \<Rightarrow> Inr (0, output))"

definition calculate_heart_rate_fft ::
  "real \<Rightarrow> real list option \<Rightarrow> int \<Rightarrow> real \<Rightarrow> real \<Rightarrow> real \<Rightarrow> error + real" where
  "calculate_heart_rate_fft PI signals len sample_rate min_bpm max_bpm =
     (if signals = None \<or> len \<le> 0 then Inr 0
      else
        let min_hz = min_bpm / 60;
            max_hz = max_bpm / 60
        in case calculate_psd PI signals len of
             Inl e \<Rightarrow> Inl e
           | Inr psd \<Rightarrow>
               (case find_peak_frequency psd sample_rate min_hz max_hz of
                  Inl e \<Rightarrow> Inl e
                | Inr peak_freq \<Rightarrow> Inr (peak_freq * 60)))"

definition calculate_respiration_rate ::
  "real \<Rightarrow> real list option \<Rightarrow> int \<Rightarrow> real \<Rightarrow> real \<Rightarrow> real \<Rightarrow> error + real" where
  "calculate_respiration_rate PI signals len sample_rate min_brpm max_brpm =
     (if signals = None \<or> len \<le> 0 then Inr 0
      else
        let filtered = replicate (nat len) 0
        in case bandpass_filter PI signals (Some filtered) len sample_rate 0.1 0.7 of
             Inl e \<Rightarrow> Inl e
           | Inr (ok, filtered) \<Rightarrow>
               if ok = 0 then Inr 0
               else
                 let min_hz = min_brpm / 60;
                     max_hz = max_brpm / 60
                 in case calculate_psd PI filtered len of
                      Inl e \<Rightarrow> Inl e
                    | Inr psd \<Rightarrow>
                        (case find_peak_frequency psd sample_rate min_hz max_hz of
                           Inl e \<Rightarrow> Inl e
                         | Inr peak_freq \<Rightarrow> Inr (peak_freq * 60)))"

subsection \<open>Reference definitions of the specification\<close>

text \<open>
  The rate estimate of the specification: power spectrum of a signal, peak frequency in
  the band converted from cycles per minute to Hz, converted back to cycles per minute.
\<close>

definition spectral_rate ::
  "real \<Rightarrow> real list option \<Rightarrow> int \<Rightarrow> real \<Rightarrow> real \<Rightarrow> real \<Rightarrow> error + real" where
  "spectral_rate PI signal len sample_rate min_rate max_rate =
     (case calculate_psd PI signal len of
        Inl e \<Rightarrow> Inl e
      | Inr psd \<Rightarrow>
          map_sum id (\<lambda>peak_freq. 60 * peak_freq)
            (find_peak_frequency psd sample_rate (min_rate / 60) (max_rate / 60)))"

text \<open>
  The frequency resolution and the clamped bin range of the peak search, as
  \<open>find_peak_frequency\<close> computes them.
\<close>

definition freq_resolution :: "real list \<Rightarrow> real \<Rightarrow> real" where
  "freq_resolution psd sample_rate = sample_rate / real_of_int (int (length psd) * 2)"

definition clamped_min_bin :: "real list \<Rightarrow> real \<Rightarrow> real \<Rightarrow> int" where
  "clamped_min_bin psd sample_rate min_freq =
     max 1 (float_to_int (min_freq / freq_resolution psd sample_rate))"

definition clamped_max_bin :: "real list \<Rightarrow> real \<Rightarrow> real \<Rightarrow> int" where
  "clamped_max_bin psd sample_rate max_freq =
     min (int (length psd) - 1) (float_to_int (max_freq / freq_resolution psd sample_rate))"

text \<open>
  The Hann window of the specification, and the buffer handed to the FFT: the first
  \<open>length\<close> samples windowed, the tail zero.
\<close>

definition hann_window :: "real \<Rightarrow> int \<Rightarrow> nat \<Rightarrow> real" where
  "hann_window PI len i = 0.5 * (1 - cos (2 * PI * real i / real_of_int (len - 1)))"

definition windowed_padded :: "real \<Rightarrow> real list \<Rightarrow> int \<Rightarrow> nat \<Rightarrow> complex list" where
  "windowed_padded PI sig len padded_size =
     map (\<lambda>i. Complex (sig ! i) 0 * complex_of_real (hann_window PI len i)) [0..<nat len]
       @ replicate (padded_size - nat len) 0"

text \<open>
  The discrete Fourier transform of the specification,
  \<open>X[k] = \<Sum>n. x[n] * exp (- 2 * pi * \<i> * n * k / N)\<close>: on a sequence, and on a vector
  (\<open>cis t\<close> is \<open>exp (\<i> * t)\<close>).
\<close>

definition dft_sum :: "nat \<Rightarrow> (nat \<Rightarrow> complex) \<Rightarrow> nat \<Rightarrow> complex" where
  "dft_sum N x k = (\<Sum>n<N. x n * cis (- 2 * pi * real n * real k / real N))"

definition dft :: "complex list \<Rightarrow> complex list" where
  "dft x = map (dft_sum (length x) (\<lambda>n. x ! n)) [0..<length x]"

text \<open>The slope \<open>detrend_signal\<close> subtracts.\<close>

definition fitted_slope :: "real list \<Rightarrow> int \<Rightarrow> real" where
  "fitted_slope signal len =
     (case regression_sums (remove_mean signal len) len of
        (sum_x, sum_y, sum_xy, sum_x2) \<Rightarrow>
          (real_of_int len * sum_xy - sum_x * sum_y)
            / (real_of_int len * sum_x2 - sum_x * sum_x))"

text \<open>
  Detrending as the specification defines it (4.1), on a buffer of \<open>N\<close> samples: the
  arithmetic mean is subtracted from every sample; then the least-squares line of the
  samples against their index, with slope \<open>(N * \<Sum>xy - \<Sum>x * \<Sum>y) / (N * \<Sum>x\<^sup>2 - (\<Sum>x)\<^sup>2)\<close>
  and intercept \<open>(\<Sum>y - slope * \<Sum>x) / N\<close>, is subtracted. The sums are sums of real
  numbers.
\<close>

definition detrend_spec :: "real list \<Rightarrow> real list" where
  "detrend_spec buffer =
     (let N = length buffer;
          mean = (\<Sum>i<N. buffer ! i) / real N;
          y = map (\<lambda>v. v - mean) buffer;
          sum_x = (\<Sum>i<N. real i);
          sum_y = (\<Sum>i<N. y ! i);
          sum_xy = (\<Sum>i<N. real i * y ! i);
          sum_x2 = (\<Sum>i<N. (real i)\<^sup>2);
          slope = (real N * sum_xy - sum_x * sum_y) / (real N * sum_x2 - sum_x\<^sup>2);
          intercept = (sum_y - slope * sum_x) / real N
      in map (\<lambda>i. y ! i - (slope * real i + intercept)) [0..<N])"

text \<open>Min-max normalisation of the specification, on the samples of a window.\<close>

definition normalize_spec :: "real list \<Rightarrow> real list" where
  "normalize_spec xs =
     (let max_val = Max (set xs);
          min_val = Min (set xs)
      in if max_val > min_val then map (\<lambda>v. (v - min_val) / (max_val - min_val)) xs else xs)"

section \<open>Loops\<close>

lemma for_loop_fold: "for_loop i n body s = fold body [i..<n] s"
proof (induction i n body s rule: for_loop.induct)
  case (1 i n body s)
  show ?case
  proof (cases "i < n")
    case True
    then show ?thesis
      using 1 by (subst for_loop.simps) (simp add: upt_conv_Cons)
  next
    case False
    then show ?thesis
      by (subst for_loop.simps) simp
  qed
qed

text \<open>
  A loop that writes cell \<open>i\<close> from cell \<open>i - 1\<close> computes a first-order recurrence
  over the cells below its bound and leaves the others as they were.
\<close>

lemma recurrence_fold:
  fixes g :: "nat \<Rightarrow> 'a \<Rightarrow> 'a"
  assumes "m \<le> length t0"
  shows "length (fold (\<lambda>i t. t[i := g i (t ! (i - 1))]) [1..<m] t0) = length t0
    \<and> (\<forall>i. m \<le> i \<or> i = 0 \<longrightarrow> fold (\<lambda>i t. t[i := g i (t ! (i - 1))]) [1..<m] t0 ! i = t0 ! i)
    \<and> (\<forall>i. 1 \<le> i \<and> i < m \<longrightarrow>
          fold (\<lambda>i t. t[i := g i (t ! (i - 1))]) [1..<m] t0 ! i
            = g i (fold (\<lambda>i t. t[i := g i (t ! (i - 1))]) [1..<m] t0 ! (i - 1)))"
  using assms
proof (induction m)
  case 0
  then show ?case by simp
next
  case (Suc m)
  let ?T = "fold (\<lambda>i t. t[i := g i (t ! (i - 1))]) [1..<m] t0"
  show ?case
  proof (cases "m = 0")
    case True
    then show ?thesis by simp
  next
    case False
    then have up: "[1..<Suc m] = [1..<m] @ [m]"
      by simp
    have "m \<le> length t0"
      using Suc.prems by simp
    note IH = Suc.IH [OF this]
    have ih: "length ?T = length t0"
      "\<And>i. m \<le> i \<or> i = 0 \<Longrightarrow> ?T ! i = t0 ! i"
      "\<And>i. 1 \<le> i \<Longrightarrow> i < m \<Longrightarrow> ?T ! i = g i (?T ! (i - 1))"
      using IH by blast+
    have m: "m < length ?T"
      using Suc.prems ih(1) by simp
    have step: "fold (\<lambda>i t. t[i := g i (t ! (i - 1))]) [1..<Suc m] t0 = ?T[m := g m (?T ! (m - 1))]"
      by (simp only: up fold_append fold.simps comp_def id_def)
    show ?thesis
      unfolding step
    proof (intro conjI allI impI)
      show "length (?T[m := g m (?T ! (m - 1))]) = length t0"
        using ih(1) by simp
    next
      fix i assume "Suc m \<le> i \<or> i = 0"
      then show "?T[m := g m (?T ! (m - 1))] ! i = t0 ! i"
        using False ih(2) by auto
    next
      fix i assume i: "1 \<le> i \<and> i < Suc m"
      show "?T[m := g m (?T ! (m - 1))] ! i = g i (?T[m := g m (?T ! (m - 1))] ! (i - 1))"
      proof (cases "i = m")
        case True
        then show ?thesis using m False by simp
      next
        case False
        then have "i < m" using i by simp
        then show ?thesis using i ih(3) by simp
      qed
    qed
  qed
qed


lemma recurrence_fold_nth:
  fixes g :: "nat \<Rightarrow> 'a \<Rightarrow> 'a"
  assumes "m \<le> length t0" and "i < m"
  shows "fold (\<lambda>i t. t[i := g i (t ! (i - 1))]) [1..<m] t0 ! i
    = rec_nat (t0 ! 0) (\<lambda>k prev. g (Suc k) prev) i"
  using assms(2)
proof (induction i)
  case 0
  then show ?case
    using recurrence_fold [OF assms(1), of g] by simp
next
  case (Suc i)
  then have "i < m" by simp
  note IH = Suc.IH [OF this]
  have "fold (\<lambda>i t. t[i := g i (t ! (i - 1))]) [1..<m] t0 ! Suc i
      = g (Suc i) (fold (\<lambda>i t. t[i := g i (t ! (i - 1))]) [1..<m] t0 ! (Suc i - 1))"
    using recurrence_fold [OF assms(1), of g] Suc.prems by (simp del: fold_simps)
  then show ?case
    using IH by simp
qed

lemma recurrence_fold_length:
  "m \<le> length t0 \<Longrightarrow> length (fold (\<lambda>i t. t[i := g i (t ! (i - 1))]) [1..<m] t0) = length t0"
  using recurrence_fold [of m t0 g] by simp

lemma recurrence_fold_above:
  "m \<le> length t0 \<Longrightarrow> m \<le> i \<Longrightarrow> fold (\<lambda>i t. t[i := g i (t ! (i - 1))]) [1..<m] t0 ! i = t0 ! i"
  using recurrence_fold [of m t0 g] by simp

section \<open>Band-pass filter: the cascade\<close>

lemma cascade_highpass_rec:
  "cascade_highpass a x i = rec_nat (x ! 0) (\<lambda>k prev. a * (prev + x ! Suc k - x ! k)) i"
  by (induction i) simp_all

lemma cascade_lowpass_rec:
  "cascade_lowpass a t i = rec_nat (t 0) (\<lambda>k prev. prev + a * (t (Suc k) - prev)) i"
  by (induction i) simp_all

lemma highpass_loop_nth:
  assumes "0 < n" and "i < n"
  shows "for_loop 1 n (\<lambda>i temp. temp[i := a * (temp ! (i - 1) + x ! i - x ! (i - 1))])
           ((replicate n 0)[0 := x ! 0]) ! i = cascade_highpass a x i"
proof -
  have "n \<le> length ((replicate n (0::real))[0 := x ! 0])"
    by simp
  from recurrence_fold_nth [OF this assms(2), of "\<lambda>i prev. a * (prev + x ! i - x ! (i - 1))"]
  show ?thesis
    using assms(1) by (simp add: for_loop_fold cascade_highpass_rec)
qed

lemma lowpass_loop_nth:
  assumes "0 < n" and "n \<le> length out" and "i < n"
  shows "for_loop 1 n (\<lambda>i out. out[i := out ! (i - 1) + a * (temp ! i - out ! (i - 1))])
           (out[0 := temp ! 0]) ! i = cascade_lowpass a (\<lambda>i. temp ! i) i"
proof -
  have "n \<le> length (out[0 := temp ! 0])"
    using assms(2) by simp
  moreover have "out[0 := temp ! 0] ! 0 = temp ! 0"
    using assms(1,2) by (cases out) simp_all
  ultimately show ?thesis
    using recurrence_fold_nth [OF _ assms(3), of "out[0 := temp ! 0]"
        "\<lambda>i prev. prev + a * (temp ! i - prev)"]
    by (simp add: for_loop_fold cascade_lowpass_rec)
qed

lemma lowpass_loop_length:
  assumes "n \<le> length out"
  shows "length (for_loop 1 n (\<lambda>i out. out[i := out ! (i - 1) + a * (temp ! i - out ! (i - 1))])
           (out[0 := v])) = length out"
proof -
  have "n \<le> length (out[0 := v])"
    using assms by simp
  from recurrence_fold_length [OF this, of "\<lambda>i prev. prev + a * (temp ! i - prev)"]
  show ?thesis
    by (simp add: for_loop_fold)
qed

lemma lowpass_loop_above:
  assumes "0 < n" and "n \<le> length out" and "n \<le> i"
  shows "for_loop 1 n (\<lambda>i out. out[i := out ! (i - 1) + a * (temp ! i - out ! (i - 1))])
           (out[0 := v]) ! i = out ! i"
proof -
  have "n \<le> length (out[0 := v])"
    using assms(2) by simp
  from recurrence_fold_above [OF this assms(3), of "\<lambda>i prev. prev + a * (temp ! i - prev)"]
  show ?thesis
    using assms(1,3) by (simp add: for_loop_fold)
qed

lemma cascade_lowpass_cong:
  "(\<And>j. j \<le> i \<Longrightarrow> t j = u j) \<Longrightarrow> cascade_lowpass a t i = cascade_lowpass a u i"
  by (induction i) simp_all

lemma bandpass_filter_success:
  assumes "0 < len" and "band_valid sample_rate low_cutoff high_cutoff"
    and "len \<le> int (length inp)" and "len \<le> int (length out)"
  shows "bandpass_filter PI (Some inp) (Some out) len sample_rate low_cutoff high_cutoff
    = Inr (1, Some (map (cascade_spec PI sample_rate low_cutoff high_cutoff inp) [0..<nat len]
                      @ drop (nat len) out))"
proof -
  define n where "n = nat len"
  define al where "al = 1 / sample_rate / (1 / (2 * PI * low_cutoff) + 1 / sample_rate)"
  define ah where "ah = 1 / (2 * PI * high_cutoff) / (1 / (2 * PI * high_cutoff) + 1 / sample_rate)"
  define temp where "temp = for_loop 1 n
      (\<lambda>i temp. temp[i := ah * (temp ! (i - 1) + inp ! i - inp ! (i - 1))])
      ((replicate n 0)[0 := inp ! 0])"
  define res where "res = for_loop 1 n
      (\<lambda>i out. out[i := out ! (i - 1) + al * (temp ! i - out ! (i - 1))]) (out[0 := temp ! 0])"
  have n: "0 < n" "n \<le> length out" "n \<le> length inp"
    using assms by (simp_all add: n_def)
  have run: "bandpass_filter PI (Some inp) (Some out) len sample_rate low_cutoff high_cutoff
      = Inr (1, Some res)"
    using assms
    by (simp add: bandpass_filter_def band_valid_def Let_def res_def temp_def n_def al_def ah_def)
  have temp: "temp ! i = cascade_highpass ah inp i" if "i < n" for i
    unfolding temp_def using highpass_loop_nth [OF n(1) that] .
  have len_res: "length res = length out"
    unfolding res_def using lowpass_loop_length [OF n(2)] .
  have low: "res ! i = cascade_spec PI sample_rate low_cutoff high_cutoff inp i" if "i < n" for i
  proof -
    have "res ! i = cascade_lowpass al (\<lambda>i. temp ! i) i"
      unfolding res_def using lowpass_loop_nth [OF n(1,2) that] .
    also have "\<dots> = cascade_lowpass al (cascade_highpass ah inp) i"
      using that by (intro cascade_lowpass_cong temp) simp
    finally show ?thesis
      by (simp add: cascade_spec_def Let_def al_def ah_def)
  qed
  have above: "res ! i = out ! i" if "n \<le> i" for i
    unfolding res_def using lowpass_loop_above [OF n(1,2) that] .
  have "res = map (cascade_spec PI sample_rate low_cutoff high_cutoff inp) [0..<n] @ drop n out"
  proof (rule nth_equalityI)
    show "length res = length (map (cascade_spec PI sample_rate low_cutoff high_cutoff inp) [0..<n] @ drop n out)"
      using len_res n(2) by simp
  next
    fix i assume "i < length res"
    then show "res ! i = (map (cascade_spec PI sample_rate low_cutoff high_cutoff inp) [0..<n] @ drop n out) ! i"
      using low above n(2) len_res by (cases "i < n") (simp_all add: nth_append)
  qed
  then show ?thesis
    using run by (simp add: n_def)
qed

text \<open>
  A band that passes the validation leaves no divisor of the coefficient formulas zero
  (for a positive constant \<open>PI\<close>).
\<close>

lemma band_valid_divisors:
  assumes "band_valid sample_rate low_cutoff high_cutoff" and "0 < PI"
  shows "sample_rate \<noteq> 0" and "2 * PI * low_cutoff \<noteq> 0" and "2 * PI * high_cutoff \<noteq> 0"
    and "1 / (2 * PI * low_cutoff) + 1 / sample_rate \<noteq> 0"
    and "1 / (2 * PI * high_cutoff) + 1 / sample_rate \<noteq> 0"
proof -
  have low: "0 < low_cutoff / (sample_rate / 2)"
    and high: "0 < high_cutoff / (sample_rate / 2)"
    using assms(1) by (simp_all add: band_valid_def not_le)
  then consider "0 < sample_rate" "0 < low_cutoff" "0 < high_cutoff"
    | "sample_rate < 0" "low_cutoff < 0" "high_cutoff < 0"
    by (auto simp add: zero_less_divide_iff)
  then have "(0 < 1 / (2 * PI * low_cutoff) + 1 / sample_rate
        \<and> 0 < 1 / (2 * PI * high_cutoff) + 1 / sample_rate)
      \<or> (1 / (2 * PI * low_cutoff) + 1 / sample_rate < 0
        \<and> 1 / (2 * PI * high_cutoff) + 1 / sample_rate < 0)"
  proof cases
    case 1
    then have "0 < 1 / (2 * PI * low_cutoff)" "0 < 1 / (2 * PI * high_cutoff)" "0 < 1 / sample_rate"
      using assms(2) by simp_all
    then show ?thesis
      by linarith
  next
    case 2
    then have "1 / (2 * PI * low_cutoff) < 0" "1 / (2 * PI * high_cutoff) < 0" "1 / sample_rate < 0"
      using assms(2) by (simp_all add: divide_less_0_iff mult_less_0_iff)
    then show ?thesis
      by linarith
  qed
  then show "1 / (2 * PI * low_cutoff) + 1 / sample_rate \<noteq> 0"
    and "1 / (2 * PI * high_cutoff) + 1 / sample_rate \<noteq> 0"
    by auto
  show "sample_rate \<noteq> 0" "2 * PI * low_cutoff \<noteq> 0" "2 * PI * high_cutoff \<noteq> 0"
    using low high assms(2) by auto
qed

section \<open>Band-pass filter: the claims\<close>

text \<open>
  Claim C1. A call of \<open>bandpass_filter\<close> with non-null input and output, a positive
  length (within both buffers) and a band that passes validation returns 1, and the first
  \<open>length\<close> samples of the output are the two-stage cascade: the high-pass recurrence
  \<open>temp[0] = input[0]\<close>, \<open>temp[i] = alpha_high * (temp[i-1] + input[i] - input[i-1])\<close>,
  then the low-pass recurrence \<open>output[0] = temp[0]\<close>,
  \<open>output[i] = output[i-1] + alpha_low * (temp[i] - output[i-1])\<close>, with
  \<open>alpha_high = rc_high / (rc_high + dt)\<close>, \<open>rc_high = 1 / (2 * PI * high_cutoff)\<close>,
  \<open>alpha_low = dt / (rc_low + dt)\<close>, \<open>rc_low = 1 / (2 * PI * low_cutoff)\<close> and
  \<open>dt = 1 / sample_rate\<close>. Samples of the output buffer past \<open>length\<close> are not touched.
\<close>

theorem bandpass_filter_is_cascade:
  assumes "0 < len"
    and "\<not> (low_cutoff / (sample_rate / 2) \<le> 0 \<or> high_cutoff / (sample_rate / 2) \<ge> 1
          \<or> low_cutoff / (sample_rate / 2) \<ge> high_cutoff / (sample_rate / 2))"
    and "len \<le> int (length inp)" and "len \<le> int (length out)"
    and "dt = 1 / sample_rate"
    and "rc_low = 1 / (2 * PI * low_cutoff)" and "rc_high = 1 / (2 * PI * high_cutoff)"
    and "alpha_low = dt / (rc_low + dt)" and "alpha_high = rc_high / (rc_high + dt)"
  shows "bandpass_filter PI (Some inp) (Some out) len sample_rate low_cutoff high_cutoff
    = Inr (1, Some (map (cascade_lowpass alpha_low (cascade_highpass alpha_high inp)) [0..<nat len]
                      @ drop (nat len) out))"
proof -
  have valid: "band_valid sample_rate low_cutoff high_cutoff"
    using assms(2) by (simp add: band_valid_def)
  have "cascade_spec PI sample_rate low_cutoff high_cutoff inp
      = cascade_lowpass alpha_low (cascade_highpass alpha_high inp)"
    by (simp add: cascade_spec_def Let_def assms(5-9))
  then show ?thesis
    using bandpass_filter_success [OF assms(1) valid assms(3,4), of PI] by simp
qed

theorem bandpass_filter_is_cascade_witness:
  "0 < (3::int)
   \<and> \<not> ((4/5) / (30 / 2) \<le> (0::real) \<or> 3 / (30 / 2) \<ge> (1::real) \<or> (4/5) / (30 / 2) \<ge> (3::real) / (30 / 2))
   \<and> 3 \<le> int (length [1, 2, 4 :: real]) \<and> 3 \<le> int (length [7, 7, 7, 9 :: real])
   \<and> bandpass_filter 3 (Some [1, 2, 4]) (Some [7, 7, 7, 9]) 3 30 (4/5) 3
       = Inr (1, Some [1, 30 / 29, 7885 / 6728, 9])"
  using bandpass_filter_is_cascade [of 3 "4/5" 30 3 "[1, 2, 4]" "[7, 7, 7, 9]" "1/30"
      "1 / (2 * 3 * (4/5))" 3 "1 / (2 * 3 * 3)" "(1/30) / (1 / (2 * 3 * (4/5)) + 1/30)"
      "(1 / (2 * 3 * 3)) / (1 / (2 * 3 * 3) + 1/30)"]
  by (simp add: numeral_3_eq_3 upt_rec)

text \<open>
  Claim C5. \<open>bandpass_filter\<close> returns 0 exactly when the input pointer is null, the
  output pointer is null, \<open>length \<le> 0\<close>, \<open>low_cutoff / nyquist \<le> 0\<close>,
  \<open>high_cutoff / nyquist \<ge> 1\<close> or \<open>low_cutoff / nyquist \<ge> high_cutoff / nyquist\<close>,
  with \<open>nyquist = sample_rate / 2\<close>; and when it returns 0 the output buffer is as it was
  (the input buffer is never written).
\<close>

theorem bandpass_filter_failure_iff:
  "((\<exists>out'. bandpass_filter PI input output len sample_rate low_cutoff high_cutoff = Inr (0, out'))
      \<longleftrightarrow> (input = None \<or> output = None \<or> len \<le> 0
            \<or> low_cutoff / (sample_rate / 2) \<le> 0
            \<or> high_cutoff / (sample_rate / 2) \<ge> 1
            \<or> low_cutoff / (sample_rate / 2) \<ge> high_cutoff / (sample_rate / 2)))
   \<and> (\<forall>out'. bandpass_filter PI input output len sample_rate low_cutoff high_cutoff = Inr (0, out')
          \<longrightarrow> out' = output)"
  by (auto simp add: bandpass_filter_def Let_def split: option.splits)

theorem bandpass_filter_failure_iff_witness:
  "(\<exists>out'. bandpass_filter 3 (Some [1, 2]) (Some [7, 7]) 2 30 3 (4/5) = Inr (0, out'))
   \<and> bandpass_filter 3 (Some [1, 2]) (Some [7, 7]) 2 30 3 (4/5) = Inr (0, Some [7, 7])
   \<and> (3::real) / (30 / 2) \<ge> (4/5) / (30 / 2)"
  using bandpass_filter_failure_iff [of 3 "Some [1, 2]" "Some [7, 7]" 2 30 3 "4/5"]
  by auto

section \<open>Peak search: bounds of the scan\<close>

lemma peak_scan_in_bounds:
  "0 \<le> i \<Longrightarrow> max_bin < int (length psd) \<Longrightarrow> \<exists>r. peak_scan psd i max_bin s = Inr r"
proof (induction psd i max_bin s rule: peak_scan.induct)
  case (1 psd i max_bin max_power peak_bin)
  show ?case
  proof (cases "i \<le> max_bin")
    case True
    then have "0 \<le> i \<and> i < int (length psd)" "0 \<le> i + 1"
      using "1.prems" by simp_all
    then show ?thesis
      using True "1.IH" "1.prems"(2) by (subst peak_scan.simps) auto
  next
    case False
    then show ?thesis
      by (subst peak_scan.simps) simp
  qed
qed

lemma fft_size_loop_1_1: "fft_size_loop 1 1 = Some 1"
  by (subst fft_size_loop.simps) simp

lemma calculate_psd_single:
  assumes "sig \<noteq> []"
  shows "calculate_psd PI (Some sig) 1 = Inr []"
  using assms by (cases sig) (simp_all add: calculate_psd_def fft_size_loop_1_1 Let_def for_loop.simps)

lemma find_peak_frequency_unfold:
  "find_peak_frequency psd sample_rate min_freq max_freq =
     (if clamped_min_bin psd sample_rate min_freq < int (length psd) then
        case peak_scan psd (clamped_min_bin psd sample_rate min_freq + 1)
               (clamped_max_bin psd sample_rate max_freq)
               (psd ! nat (clamped_min_bin psd sample_rate min_freq),
                clamped_min_bin psd sample_rate min_freq) of
          Inl e \<Rightarrow> Inl e
        | Inr (max_power, peak_bin) \<Rightarrow>
            Inr (real_of_int peak_bin * freq_resolution psd sample_rate)
      else Inl OutOfBounds)"
proof -
  have "0 \<le> clamped_min_bin psd sample_rate min_freq"
    by (simp add: clamped_min_bin_def)
  then show ?thesis
    unfolding find_peak_frequency_def Let_def
    unfolding freq_resolution_def [symmetric]
    unfolding clamped_min_bin_def [symmetric] clamped_max_bin_def [symmetric]
    by simp
qed

section \<open>Entry points: guards\<close>

text \<open>
  Claim C9. With a null signal pointer or \<open>length \<le> 0\<close>, \<open>calculate_heart_rate_fft\<close> and
  \<open>calculate_respiration_rate\<close> return 0; \<open>calculate_respiration_rate\<close> also returns 0
  when its band-pass call over [0.1, 0.7] Hz returns 0; with a null input or output pointer
  or \<open>length \<le> 0\<close>, \<open>process_rppg_signals\<close> and \<open>bandpass_filter\<close> return 0 and leave
  the output as it was.
\<close>

theorem invalid_buffer_returns:
  "(signals = None \<or> len \<le> 0 \<longrightarrow>
      calculate_heart_rate_fft PI signals len sample_rate min_rate max_rate = Inr 0
      \<and> calculate_respiration_rate PI signals len sample_rate min_rate max_rate = Inr 0)
   \<and> ((\<exists>out'. bandpass_filter PI signals (Some (replicate (nat len) 0)) len sample_rate 0.1 0.7
               = Inr (0, out')) \<longrightarrow>
      calculate_respiration_rate PI signals len sample_rate min_rate max_rate = Inr 0)
   \<and> (input = None \<or> output = None \<or> len \<le> 0 \<longrightarrow>
      process_rppg_signals PI input output len sample_rate = Inr (0, output)
      \<and> bandpass_filter PI input output len sample_rate low_cutoff high_cutoff = Inr (0, output))"
proof (intro conjI impI)
  assume "signals = None \<or> len \<le> 0"
  then show "calculate_heart_rate_fft PI signals len sample_rate min_rate max_rate = Inr 0"
    by (simp add: calculate_heart_rate_fft_def)
next
  assume "signals = None \<or> len \<le> 0"
  then show "calculate_respiration_rate PI signals len sample_rate min_rate max_rate = Inr 0"
    by (simp add: calculate_respiration_rate_def)
next
  assume "\<exists>out'. bandpass_filter PI signals (Some (replicate (nat len) 0)) len sample_rate 0.1 0.7
      = Inr (0, out')"
  then show "calculate_respiration_rate PI signals len sample_rate min_rate max_rate = Inr 0"
    by (auto simp add: calculate_respiration_rate_def Let_def)
next
  assume "input = None \<or> output = None \<or> len \<le> 0"
  then show "process_rppg_signals PI input output len sample_rate = Inr (0, output)"
    by (auto simp add: process_rppg_signals_def split: option.splits)
next
  assume "input = None \<or> output = None \<or> len \<le> 0"
  then show "bandpass_filter PI input output len sample_rate low_cutoff high_cutoff = Inr (0, output)"
    by (auto simp add: bandpass_filter_def split: option.splits)
qed

theorem invalid_buffer_returns_witness:
  "(0::int) \<le> 0
   \<and> calculate_heart_rate_fft 3 (Some [1, 2]) 0 30 40 180 = Inr 0
   \<and> calculate_respiration_rate 3 (Some [1, 2]) 0 30 40 180 = Inr 0
   \<and> bandpass_filter 3 (Some [1, 2]) (Some (replicate (nat 0) 0)) 0 30 0.1 0.7 = Inr (0, Some [])
   \<and> process_rppg_signals 3 (Some [1, 2]) (Some [7, 7]) 0 30 = Inr (0, Some [7, 7])
   \<and> bandpass_filter 3 (Some [1, 2]) (Some [7, 7]) 0 30 40 180 = Inr (0, Some [7, 7])"
  using invalid_buffer_returns [of "Some [1, 2]" 0 3 30 40 180 "Some [1, 2]" "Some [7, 7]" 40 180]
  by (simp add: bandpass_filter_def)

text \<open>
  Claim C10. \<open>find_peak_frequency\<close> reads \<open>psd[min_bin]\<close> after clamping \<open>min_bin\<close> to at
  least 1, and no other read can leave the vector: all its accesses are in bounds exactly
  when \<open>max(1, trunc(min_freq / resolution)) \<le> len(psd) - 1\<close>. A signal of length 1
  (\<open>length = 1\<close> on a buffer \<open>x # xs\<close>) passes the guard of \<open>calculate_heart_rate_fft\<close>,
  its power spectrum is empty, and the read of \<open>psd[min_bin]\<close> is out of bounds.
\<close>

theorem find_peak_frequency_in_bounds_iff:
  "((\<exists>f. find_peak_frequency psd sample_rate min_freq max_freq = Inr f)
      \<longleftrightarrow> max 1 (float_to_int (min_freq / (sample_rate / real_of_int (int (length psd) * 2))))
            \<le> int (length psd) - 1)
   \<and> (find_peak_frequency psd sample_rate min_freq max_freq = Inl OutOfBounds
      \<longleftrightarrow> \<not> max 1 (float_to_int (min_freq / (sample_rate / real_of_int (int (length psd) * 2))))
            \<le> int (length psd) - 1)
   \<and> calculate_psd PI (Some (x # xs)) 1 = Inr []
   \<and> calculate_heart_rate_fft PI (Some (x # xs)) 1 sample_rate min_bpm max_bpm = Inl OutOfBounds"
proof -
  define min_bin where "min_bin = clamped_min_bin psd sample_rate min_freq"
  define max_bin where "max_bin = clamped_max_bin psd sample_rate max_freq"
  have min_bin: "min_bin
      = max 1 (float_to_int (min_freq / (sample_rate / real_of_int (int (length psd) * 2))))"
    by (simp only: min_bin_def clamped_min_bin_def freq_resolution_def)
  have "0 \<le> min_bin + 1" "max_bin < int (length psd)"
    by (simp_all add: min_bin_def max_bin_def clamped_min_bin_def clamped_max_bin_def)
  from peak_scan_in_bounds [OF this]
  obtain r where scan: "peak_scan psd (min_bin + 1) max_bin (psd ! nat min_bin, min_bin) = Inr r"
    by blast
  have ok: "\<exists>f. find_peak_frequency psd sample_rate min_freq max_freq = Inr f"
    if "min_bin \<le> int (length psd) - 1"
    using that scan
    by (cases r) (simp add: find_peak_frequency_unfold min_bin_def [symmetric]
        max_bin_def [symmetric])
  have bad: "find_peak_frequency psd sample_rate min_freq max_freq = Inl OutOfBounds"
    if "\<not> min_bin \<le> int (length psd) - 1"
    using that
    by (simp add: find_peak_frequency_unfold min_bin_def [symmetric])
  have psd: "calculate_psd PI (Some (x # xs)) 1 = Inr []"
    by (rule calculate_psd_single) simp
  have "find_peak_frequency [] sample_rate (min_bpm / 60) (max_bpm / 60) = Inl OutOfBounds"
    by (simp add: find_peak_frequency_unfold clamped_min_bin_def)
  then have hr: "calculate_heart_rate_fft PI (Some (x # xs)) 1 sample_rate min_bpm max_bpm
      = Inl OutOfBounds"
    by (simp add: calculate_heart_rate_fft_def psd Let_def)
  show ?thesis
    unfolding min_bin [symmetric] using ok bad psd hr
    by (cases "min_bin \<le> int (length psd) - 1") auto
qed

theorem find_peak_frequency_in_bounds_iff_witness:
  "find_peak_frequency [1, 2] 4 1 2 = Inr 1
   \<and> max 1 (float_to_int (1 / (4 / real_of_int (int (length [1, 2 :: real]) * 2)))) \<le> int (length [1, 2 :: real]) - 1
   \<and> find_peak_frequency [1, 2] 4 2 3 = Inl OutOfBounds
   \<and> max 1 (float_to_int (2 / (4 / real_of_int (int (length [1, 2 :: real]) * 2)))) = 2
   \<and> calculate_heart_rate_fft 3 (Some [5]) 1 30 40 180 = Inl OutOfBounds"
  using find_peak_frequency_in_bounds_iff [of "[1, 2]" 4 1 2 3 5 "[]" 40 180]
    find_peak_frequency_in_bounds_iff [of "[1, 2]" 4 2 3 3 5 "[]" 40 180]
    find_peak_frequency_in_bounds_iff [of "[1, 2]" 30 2 3 3 5 "[]" 40 180]
  by (simp add: find_peak_frequency_def float_to_int_def Let_def peak_scan.simps)

section \<open>Peak search: the scan finds the first maximum\<close>

lemma peak_scan_first_max:
  assumes "0 \<le> lo" and "lo \<le> pb" and "pb < i" and "i \<le> max_bin + 1"
    and "max_bin < int (length psd)"
    and "\<forall>j. lo \<le> j \<and> j < i \<longrightarrow> psd ! nat j \<le> psd ! nat pb"
    and "\<forall>j. lo \<le> j \<and> j < pb \<longrightarrow> psd ! nat j < psd ! nat pb"
  shows "\<exists>pk. peak_scan psd i max_bin (psd ! nat pb, pb) = Inr (psd ! nat pk, pk)
    \<and> lo \<le> pk \<and> pk \<le> max_bin
    \<and> (\<forall>j. lo \<le> j \<and> j \<le> max_bin \<longrightarrow> psd ! nat j \<le> psd ! nat pk)
    \<and> (\<forall>j. lo \<le> j \<and> j < pk \<longrightarrow> psd ! nat j < psd ! nat pk)"
  using assms
proof (induction "nat (max_bin + 1 - i)" arbitrary: i pb)
  case 0
  then have i: "i = max_bin + 1"
    by simp
  then have "peak_scan psd i max_bin (psd ! nat pb, pb) = Inr (psd ! nat pb, pb)"
    by (subst peak_scan.simps) simp
  moreover have "pb \<le> max_bin"
    using "0.prems"(3) i by simp
  moreover have "\<forall>j. lo \<le> j \<and> j \<le> max_bin \<longrightarrow> psd ! nat j \<le> psd ! nat pb"
    using "0.prems"(6) i by simp
  ultimately show ?case
    using "0.prems"(2,7) by blast
next
  case (Suc d)
  then have i: "i \<le> max_bin" "0 \<le> i \<and> i < int (length psd)"
    and d: "d = nat (max_bin + 1 - (i + 1))"
    by simp_all
  show ?case
  proof (cases "psd ! nat i > psd ! nat pb")
    case True
    have step: "peak_scan psd i max_bin (psd ! nat pb, pb)
        = peak_scan psd (i + 1) max_bin (psd ! nat i, i)"
      using i True by (subst peak_scan.simps) simp
    have below: "\<forall>j. lo \<le> j \<and> j < i + 1 \<longrightarrow> psd ! nat j \<le> psd ! nat i"
    proof (intro allI impI)
      fix j assume j: "lo \<le> j \<and> j < i + 1"
      show "psd ! nat j \<le> psd ! nat i"
      proof (cases "j = i")
        case True
        then show ?thesis by simp
      next
        case False
        then have "psd ! nat j \<le> psd ! nat pb"
          using j Suc.prems(6) by simp
        then show ?thesis
          using True by simp
      qed
    qed
    have strict: "\<forall>j. lo \<le> j \<and> j < i \<longrightarrow> psd ! nat j < psd ! nat i"
    proof (intro allI impI)
      fix j assume "lo \<le> j \<and> j < i"
      then have "psd ! nat j \<le> psd ! nat pb"
        using Suc.prems(6) by simp
      then show "psd ! nat j < psd ! nat i"
        using True by simp
    qed
    have "lo \<le> i" "i < i + 1" "i + 1 \<le> max_bin + 1"
      using Suc.prems(2,3) i by simp_all
    from Suc.hyps(1) [OF d Suc.prems(1) this Suc.prems(5) below strict]
    show ?thesis
      unfolding step .
  next
    case False
    have step: "peak_scan psd i max_bin (psd ! nat pb, pb)
        = peak_scan psd (i + 1) max_bin (psd ! nat pb, pb)"
      using i False by (subst peak_scan.simps) simp
    have below: "\<forall>j. lo \<le> j \<and> j < i + 1 \<longrightarrow> psd ! nat j \<le> psd ! nat pb"
    proof (intro allI impI)
      fix j assume j: "lo \<le> j \<and> j < i + 1"
      show "psd ! nat j \<le> psd ! nat pb"
      proof (cases "j = i")
        case True
        then show ?thesis using False by simp
      next
        case False
        then show ?thesis
          using j Suc.prems(6) by simp
      qed
    qed
    have "pb < i + 1" "i + 1 \<le> max_bin + 1"
      using Suc.prems(3) i by simp_all
    from Suc.hyps(1) [OF d Suc.prems(1,2) this Suc.prems(5) below Suc.prems(7)]
    show ?thesis
      unfolding step .
  qed
qed

lemma float_to_int_le:
  assumes "1 \<le> float_to_int x"
  shows "real_of_int (float_to_int x) \<le> x"
proof (cases "0 \<le> x")
  case True
  then show ?thesis
    by (simp add: float_to_int_def)
next
  case False
  then have "\<lceil>x\<rceil> \<le> 0"
    by (simp add: ceiling_le_zero)
  then show ?thesis
    using assms False by (simp add: float_to_int_def)
qed

text \<open>
  Claim C4, as the code has it. When the clamped range \<open>[min_bin, max_bin]\<close> is not empty,
  \<open>find_peak_frequency\<close> returns \<open>peak_bin * resolution\<close> with
  \<open>resolution = sample_rate / (2 * len(psd))\<close>, where \<open>peak_bin\<close> lies in the clamped
  range, is at least 1, holds the greatest power of the range and is the lowest such bin;
  with a positive sample rate the returned frequency is at least the resolution-quantized
  \<open>min_freq\<close> and at most \<open>max_freq\<close>.
\<close>

theorem find_peak_frequency_first_max:
  assumes "clamped_min_bin psd sample_rate min_freq \<le> clamped_max_bin psd sample_rate max_freq"
  shows "\<exists>peak_bin.
      find_peak_frequency psd sample_rate min_freq max_freq
        = Inr (real_of_int peak_bin * (sample_rate / (2 * real (length psd))))
    \<and> max 1 (float_to_int (min_freq / (sample_rate / (2 * real (length psd))))) \<le> peak_bin
    \<and> peak_bin \<le> min (int (length psd) - 1)
                      (float_to_int (max_freq / (sample_rate / (2 * real (length psd)))))
    \<and> 1 \<le> peak_bin
    \<and> (\<forall>j. clamped_min_bin psd sample_rate min_freq \<le> j
            \<and> j \<le> clamped_max_bin psd sample_rate max_freq
          \<longrightarrow> psd ! nat j \<le> psd ! nat peak_bin)
    \<and> (\<forall>j. clamped_min_bin psd sample_rate min_freq \<le> j \<and> j < peak_bin
          \<longrightarrow> psd ! nat j < psd ! nat peak_bin)
    \<and> (0 < sample_rate \<longrightarrow>
          real_of_int (float_to_int (min_freq / (sample_rate / (2 * real (length psd)))))
              * (sample_rate / (2 * real (length psd)))
            \<le> real_of_int peak_bin * (sample_rate / (2 * real (length psd)))
          \<and> real_of_int peak_bin * (sample_rate / (2 * real (length psd))) \<le> max_freq)"
proof -
  define res where "res = freq_resolution psd sample_rate"
  define lo where "lo = clamped_min_bin psd sample_rate min_freq"
  define hi where "hi = clamped_max_bin psd sample_rate max_freq"
  have res: "sample_rate / (2 * real (length psd)) = res"
    by (simp add: res_def freq_resolution_def)
  have lo: "lo = max 1 (float_to_int (min_freq / res))"
    by (simp only: lo_def clamped_min_bin_def res_def)
  have hi: "hi = min (int (length psd) - 1) (float_to_int (max_freq / res))"
    by (simp only: hi_def clamped_max_bin_def res_def)
  have range: "lo \<le> hi"
    using assms by (simp add: lo_def hi_def)
  have bounds: "1 \<le> lo" "hi < int (length psd)" "lo < int (length psd)"
    using range by (simp_all add: lo hi)
  have "0 \<le> lo" "lo \<le> lo" "lo < lo + 1" "lo + 1 \<le> hi + 1"
    "\<forall>j. lo \<le> j \<and> j < lo + 1 \<longrightarrow> psd ! nat j \<le> psd ! nat lo"
    "\<forall>j. lo \<le> j \<and> j < lo \<longrightarrow> psd ! nat j < psd ! nat lo"
    using bounds(1) range by (auto simp add: order.order_iff_strict [of lo])
  from peak_scan_first_max [OF this(1-4) bounds(2) this(5,6)]
  obtain pk where pk: "peak_scan psd (lo + 1) hi (psd ! nat lo, lo) = Inr (psd ! nat pk, pk)"
    "lo \<le> pk" "pk \<le> hi"
    "\<forall>j. lo \<le> j \<and> j \<le> hi \<longrightarrow> psd ! nat j \<le> psd ! nat pk"
    "\<forall>j. lo \<le> j \<and> j < pk \<longrightarrow> psd ! nat j < psd ! nat pk"
    by blast
  have run: "find_peak_frequency psd sample_rate min_freq max_freq = Inr (real_of_int pk * res)"
    using bounds(3) pk(1)
    by (simp add: find_peak_frequency_unfold lo_def [symmetric] hi_def [symmetric]
        res_def [symmetric])
  have freq: "real_of_int (float_to_int (min_freq / res)) * res \<le> real_of_int pk * res
      \<and> real_of_int pk * res \<le> max_freq" if "0 < sample_rate"
  proof -
    have "0 < length psd"
      using bounds(1,3) by (cases psd) simp_all
    then have pos: "0 < res"
      using that by (simp add: res [symmetric])
    have "float_to_int (min_freq / res) \<le> pk"
      using pk(2) lo by simp
    then have low: "real_of_int (float_to_int (min_freq / res)) * res \<le> real_of_int pk * res"
      using pos by simp
    have top: "pk \<le> float_to_int (max_freq / res)"
      using pk(3) hi by simp
    then have "1 \<le> float_to_int (max_freq / res)"
      using pk(2) bounds(1) by simp
    from float_to_int_le [OF this] top
    have "real_of_int pk \<le> max_freq / res"
      by linarith
    then have "real_of_int pk * res \<le> max_freq"
      using pos by (simp add: pos_le_divide_eq)
    then show ?thesis
      using low by simp
  qed
  show ?thesis
    unfolding res lo [symmetric] hi [symmetric] lo_def [symmetric] hi_def [symmetric]
    using run pk(2-5) bounds(1) freq by (intro exI [of _ pk]) auto
qed

theorem find_peak_frequency_first_max_witness:
  "clamped_min_bin [0, 3, 3, 1] 8 1 \<le> clamped_max_bin [0, 3, 3, 1] 8 3
   \<and> find_peak_frequency [0, 3, 3, 1] 8 1 3 = Inr 1"
proof -
  have range: "clamped_min_bin [0, 3, 3, 1] 8 1 \<le> clamped_max_bin [0, 3, 3, 1] 8 3"
    by (simp add: clamped_min_bin_def clamped_max_bin_def freq_resolution_def float_to_int_def)
  have "find_peak_frequency [0, 3, 3, 1] 8 1 3 = Inr 1"
    using find_peak_frequency_first_max [OF range]
    by (simp add: find_peak_frequency_unfold clamped_min_bin_def clamped_max_bin_def
        freq_resolution_def float_to_int_def peak_scan.simps)
  then show ?thesis
    using range by simp
qed

text \<open>
  The claim as stated, for every power spectrum and band, fails where the clamped range
  is empty: with four bins, a sample rate of 8 Hz and the band [0.5, 0.7] Hz the range is
  [1, 0], the function returns bin 1, and 1 Hz is above \<open>max_freq\<close>.
\<close>

theorem find_peak_frequency_empty_range:
  "find_peak_frequency [0, 0, 0, 0] 8 0.5 0.7 = Inr 1
   \<and> clamped_min_bin [0, 0, 0, 0] 8 0.5 = 1
   \<and> clamped_max_bin [0, 0, 0, 0] 8 0.7 = 0
   \<and> (0.7 :: real) < 1"
  by (simp add: find_peak_frequency_unfold clamped_min_bin_def clamped_max_bin_def
      freq_resolution_def float_to_int_def peak_scan.simps)

section \<open>Loops that write one cell per iteration\<close>

lemma for_loop_length:
  assumes "\<And>i s. length (body i s) = length s"
  shows "length (for_loop a b body s) = length s"
  unfolding for_loop_fold
proof (induction b)
  case 0
  then show ?case by simp
next
  case (Suc b)
  then show ?case
    using assms by (cases "a \<le> b") simp_all
qed

lemma pointwise_fold:
  "length (fold (\<lambda>i d. d[i := g i (d ! i)]) [a..<b] d0) = length d0
   \<and> (\<forall>j. fold (\<lambda>i d. d[i := g i (d ! i)]) [a..<b] d0 ! j
          = (if a \<le> j \<and> j < b \<and> j < length d0 then g j (d0 ! j) else d0 ! j))"
proof (induction b)
  case 0
  then show ?case by simp
next
  case (Suc b)
  let ?D = "fold (\<lambda>i d. d[i := g i (d ! i)]) [a..<b] d0"
  show ?case
  proof (cases "a \<le> b")
    case False
    then show ?thesis by auto
  next
    case True
    have ih: "length ?D = length d0"
      "\<And>j. ?D ! j = (if a \<le> j \<and> j < b \<and> j < length d0 then g j (d0 ! j) else d0 ! j)"
      using Suc.IH by blast+
    have step: "fold (\<lambda>i d. d[i := g i (d ! i)]) [a..<Suc b] d0 = ?D[b := g b (?D ! b)]"
      using True by simp
    have "?D[b := g b (?D ! b)] ! j
        = (if a \<le> j \<and> j < Suc b \<and> j < length d0 then g j (d0 ! j) else d0 ! j)" for j
    proof (cases "j = b")
      case True
      show ?thesis
      proof (cases "b < length d0")
        case True
        then show ?thesis
          using \<open>j = b\<close> \<open>a \<le> b\<close> ih by simp
      next
        case False
        then have "length ?D \<le> b"
          using ih(1) by simp
        then have "?D[b := g b (?D ! b)] = ?D"
          by (rule list_update_beyond)
        then show ?thesis
          using \<open>j = b\<close> False ih(2) [of b] by simp
      qed
    next
      case False
      then show ?thesis
        using ih(2) [of j] by auto
    qed
    then show ?thesis
      unfolding step using ih(1) by simp
  qed
qed

lemma pointwise_loop:
  assumes "a \<le> b" and "b \<le> length d0"
  shows "for_loop a b (\<lambda>i d. d[i := g i (d ! i)]) d0
    = take a d0 @ map (\<lambda>i. g i (d0 ! i)) [a..<b] @ drop b d0"
proof (rule nth_equalityI)
  show "length (for_loop a b (\<lambda>i d. d[i := g i (d ! i)]) d0)
      = length (take a d0 @ map (\<lambda>i. g i (d0 ! i)) [a..<b] @ drop b d0)"
    using assms pointwise_fold [of g a b d0] by (simp add: for_loop_fold)
next
  fix j assume "j < length (for_loop a b (\<lambda>i d. d[i := g i (d ! i)]) d0)"
  then have j: "j < length d0"
    using pointwise_fold [of g a b d0] by (simp add: for_loop_fold)
  have lhs: "for_loop a b (\<lambda>i d. d[i := g i (d ! i)]) d0 ! j
      = (if a \<le> j \<and> j < b then g j (d0 ! j) else d0 ! j)"
    using pointwise_fold [of g a b d0] j by (simp add: for_loop_fold)
  have rhs: "(take a d0 @ map (\<lambda>i. g i (d0 ! i)) [a..<b] @ drop b d0) ! j
      = (if a \<le> j \<and> j < b then g j (d0 ! j) else d0 ! j)"
  proof -
    consider "j < a" | "a \<le> j" "j < b" | "b \<le> j"
      by linarith
    then show ?thesis
    proof cases
      case 1
      then show ?thesis
        using assms j by (simp add: nth_append)
    next
      case 2
      then have "j - a < b - a"
        by linarith
      then show ?thesis
        using 2 assms j by (simp add: nth_append)
    next
      case 3
      then have "\<not> j - a < b - a" "b + (j - a - (b - a)) = j"
        using assms(1) by linarith+
      then show ?thesis
        using 3 assms j by (simp add: nth_append min_absorb2)
    qed
  qed
  show "for_loop a b (\<lambda>i d. d[i := g i (d ! i)]) d0 ! j
      = (take a d0 @ map (\<lambda>i. g i (d0 ! i)) [a..<b] @ drop b d0) ! j"
    using lhs rhs by simp
qed

section \<open>Power spectrum\<close>

lemma fft_combine_length: "length (fft_combine PI evens odds data) = length data"
  unfolding fft_combine_def Let_def by (rule for_loop_length) simp

lemma fft_length: "length (fft PI data) = length data"
proof (induction PI data rule: fft.induct)
  case (1 PI data)
  show ?case
    by (subst fft.simps) (simp add: fft_combine_length)
qed

text \<open>
  From a power of two that no smaller power of two makes superfluous, the padding loop
  returns the smallest power of two that is at least \<open>len\<close>.
\<close>

lemma fft_size_loop_power:
  assumes "\<forall>m. len \<le> 2 ^ m \<longrightarrow> j \<le> m"
  shows "\<exists>k. fft_size_loop (2 ^ j) len = Some (2 ^ k) \<and> len \<le> 2 ^ k
    \<and> (\<forall>m. len \<le> 2 ^ m \<longrightarrow> k \<le> m)"
  using assms
proof (induction "nat (len - 2 ^ j)" arbitrary: j rule: less_induct)
  case less
  show ?case
  proof (cases "(2::int) ^ j < len")
    case True
    have step: "fft_size_loop (2 ^ j) len = fft_size_loop (2 ^ Suc j) len"
      using True by (subst fft_size_loop.simps) (simp add: mult.commute)
    have smaller: "nat (len - 2 ^ Suc j) < nat (len - 2 ^ j)"
      using True by simp
    have "\<forall>m. len \<le> 2 ^ m \<longrightarrow> Suc j \<le> m"
    proof (intro allI impI)
      fix m assume m: "len \<le> 2 ^ m"
      then have "j \<le> m"
        using less.prems by simp
      moreover have "m \<noteq> j"
        using m True by auto
      ultimately show "Suc j \<le> m"
        by simp
    qed
    from less.hyps [OF smaller this] show ?thesis
      unfolding step .
  next
    case False
    then have "fft_size_loop (2 ^ j) len = Some (2 ^ j)"
      by (subst fft_size_loop.simps) simp
    then show ?thesis
      using False less.prems by (intro exI [of _ j]) simp
  qed
qed

lemma fft_size_loop_returns:
  "\<exists>k. fft_size_loop 1 len = Some (2 ^ k) \<and> len \<le> 2 ^ k \<and> (\<forall>m. len \<le> 2 ^ m \<longrightarrow> k \<le> m)"
  using fft_size_loop_power [of len 0] by simp

lemma calculate_psd_returns: "calculate_psd PI signal len \<noteq> Inl Diverges"
proof -
  obtain k where "fft_size_loop 1 len = Some (2 ^ k)"
    using fft_size_loop_returns [of len] by blast
  then show ?thesis
    by (simp add: calculate_psd_def Let_def)
qed

lemma windowed_padded_loops:
  assumes "0 \<le> len" and "len \<le> int (length sig)" and "nat len \<le> P"
  shows "for_loop 0 (nat len)
      (\<lambda>i d. let window = 0.5 * (1 - cos (2 * PI * real i / real_of_int (len - 1)))
             in d[i := d ! i * complex_of_real window])
      (for_loop (nat len) P (\<lambda>i d. d[i := Complex 0 0])
        (for_loop 0 (nat len) (\<lambda>i d. d[i := Complex (sig ! i) 0]) (replicate P 0)))
    = windowed_padded PI sig len P"
proof -
  define n where "n = nat len"
  define d1 where "d1 = for_loop 0 n (\<lambda>i d. d[i := Complex (sig ! i) 0]) (replicate P 0)"
  define d2 where "d2 = for_loop n P (\<lambda>i d. d[i := Complex 0 0]) d1"
  have n: "n \<le> P"
    using assms(3) by (simp add: n_def)
  have "n \<le> length (replicate P (0::complex))"
    using n by simp
  from pointwise_loop [OF _ this, of 0 "\<lambda>i v. Complex (sig ! i) 0"]
  have d1: "d1 = map (\<lambda>i. Complex (sig ! i) 0) [0..<n] @ replicate (P - n) 0"
    by (simp add: d1_def)
  have "P \<le> length d1"
    using n by (simp add: d1)
  moreover have zero: "Complex 0 0 = 0"
    by (simp add: Complex_eq_0)
  ultimately have d2: "d2 = map (\<lambda>i. Complex (sig ! i) 0) [0..<n] @ replicate (P - n) 0"
    using pointwise_loop [OF n, of d1 "\<lambda>i v. Complex 0 0"] n
    by (simp add: d2_def d1 map_replicate_const)
  have "n \<le> length d2"
    using n by (simp add: d2)
  from pointwise_loop [OF _ this, of 0 "\<lambda>i v. v * complex_of_real (hann_window PI len i)"]
  have "for_loop 0 n (\<lambda>i d. d[i := d ! i * complex_of_real (hann_window PI len i)]) d2
      = map (\<lambda>i. d2 ! i * complex_of_real (hann_window PI len i)) [0..<n] @ drop n d2"
    by simp
  also have "\<dots> = windowed_padded PI sig len P"
    by (simp add: d2 windowed_padded_def n_def [symmetric] nth_append)
  finally show ?thesis
    by (simp add: n_def d1_def d2_def hann_window_def Let_def)
qed

lemma power_spectrum_loop:
  "for_loop 0 h (\<lambda>i psd. psd[i := (Re (X ! i))\<^sup>2 + (Im (X ! i))\<^sup>2]) (replicate h 0)
    = map (\<lambda>i. (Re (X ! i))\<^sup>2 + (Im (X ! i))\<^sup>2) [0..<h]"
proof -
  have "h \<le> length (replicate h (0::real))"
    by simp
  from pointwise_loop [OF _ this, of 0 "\<lambda>i v. (Re (X ! i))\<^sup>2 + (Im (X ! i))\<^sup>2"]
  show ?thesis
    by simp
qed

lemma calculate_psd_closed:
  assumes "0 \<le> len" and "len \<le> int (length sig)" and "fft_size_loop 1 len = Some (2 ^ k)"
    and "len \<le> 2 ^ k"
  shows "calculate_psd PI (Some sig) len
    = Inr (map (\<lambda>i. (Re (fft PI (windowed_padded PI sig len (2 ^ k)) ! i))\<^sup>2
                    + (Im (fft PI (windowed_padded PI sig len (2 ^ k)) ! i))\<^sup>2)
             [0..<2 ^ k div 2])"
proof -
  have P: "nat (2 ^ k) = (2::nat) ^ k" "nat (2 ^ k div 2) = (2::nat) ^ k div 2"
    by (simp_all add: nat_power_eq nat_div_distrib)
  have "nat len \<le> 2 ^ k"
    using assms(4) by (simp add: nat_le_iff)
  from windowed_padded_loops [OF assms(1,2) this, of PI]
  show ?thesis
    using assms(1,2)
    by (simp add: calculate_psd_def assms(3) Let_def P power_spectrum_loop)
qed

text \<open>
  Claim C7. For a signal of \<open>length \<ge> 1\<close> (within the buffer), \<open>calculate_psd\<close> returns
  \<open>padded_size / 2\<close> values, \<open>padded_size = 2 ^ k\<close> being the smallest power of two that
  is at least \<open>length\<close>; each value is \<open>re\<^sup>2 + im\<^sup>2\<close> of a bin of the FFT, hence not
  negative; the FFT runs on the buffer of \<open>padded_size\<close> complex values whose first
  \<open>length\<close> entries are the samples times the Hann window
  \<open>0.5 * (1 - cos (2 * PI * i / (length - 1)))\<close> and whose tail is zero. (For
  \<open>length = 1\<close> the window divides by zero; the spectrum is then empty.)
\<close>

theorem calculate_psd_spectrum:
  assumes "1 \<le> len" and "len \<le> int (length sig)"
  shows "\<exists>k psd. calculate_psd PI (Some sig) len = Inr psd
    \<and> len \<le> 2 ^ k \<and> (\<forall>m. len \<le> 2 ^ m \<longrightarrow> k \<le> m)
    \<and> length psd = 2 ^ k div 2
    \<and> (\<forall>p \<in> set psd. 0 \<le> p)
    \<and> psd = map (\<lambda>i. (Re (fft PI (windowed_padded PI sig len (2 ^ k)) ! i))\<^sup>2
                      + (Im (fft PI (windowed_padded PI sig len (2 ^ k)) ! i))\<^sup>2)
               [0..<2 ^ k div 2]
    \<and> length (windowed_padded PI sig len (2 ^ k)) = 2 ^ k
    \<and> (\<forall>i < nat len. windowed_padded PI sig len (2 ^ k) ! i
          = complex_of_real (sig ! i * (0.5 * (1 - cos (2 * PI * real i / real_of_int (len - 1))))))
    \<and> (\<forall>i. nat len \<le> i \<and> i < 2 ^ k \<longrightarrow> windowed_padded PI sig len (2 ^ k) ! i = 0)"
proof -
  obtain k where k: "fft_size_loop 1 len = Some (2 ^ k)" "len \<le> 2 ^ k"
    "\<forall>m. len \<le> 2 ^ m \<longrightarrow> k \<le> m"
    using fft_size_loop_returns [of len] by blast
  let ?X = "fft PI (windowed_padded PI sig len (2 ^ k))"
  let ?psd = "map (\<lambda>i. (Re (?X ! i))\<^sup>2 + (Im (?X ! i))\<^sup>2) [0..<2 ^ k div 2]"
  have n: "nat len \<le> 2 ^ k"
    using k(2) by (simp add: nat_le_iff)
  have run: "calculate_psd PI (Some sig) len = Inr ?psd"
    using calculate_psd_closed [OF _ assms(2) k(1,2)] assms(1) by simp
  have size: "length (windowed_padded PI sig len (2 ^ k)) = 2 ^ k"
    using n by (simp add: windowed_padded_def)
  have head: "windowed_padded PI sig len (2 ^ k) ! i
      = complex_of_real (sig ! i * (0.5 * (1 - cos (2 * PI * real i / real_of_int (len - 1)))))"
    if "i < nat len" for i
    using that
    by (simp add: windowed_padded_def nth_append hann_window_def complex_eq_iff)
  have tail: "windowed_padded PI sig len (2 ^ k) ! i = 0" if "nat len \<le> i" "i < 2 ^ k" for i
    using that by (simp add: windowed_padded_def nth_append)
  have nonneg: "\<forall>p \<in> set ?psd. 0 \<le> p"
    by auto
  show ?thesis
    using run k(2,3) size head tail nonneg
    by (intro exI [of _ k] exI [of _ ?psd]) simp
qed

theorem calculate_psd_spectrum_witness:
  "(1::int) \<le> 2 \<and> 2 \<le> int (length [1, 2 :: real])
   \<and> calculate_psd pi (Some [1, 2]) 2 = Inr [0]"
proof -
  have len: "(1::int) \<le> 2" and fits: "2 \<le> int (length [1, 2 :: real])"
    by simp_all
  from calculate_psd_spectrum [OF len fits, of pi]
  obtain k psd where run: "calculate_psd pi (Some [1, 2]) 2 = Inr psd"
    and k: "(2::int) \<le> 2 ^ k" "\<forall>m. (2::int) \<le> 2 ^ m \<longrightarrow> k \<le> m"
    and size: "length psd = 2 ^ k div 2"
    and psd: "psd = map (\<lambda>i. (Re (fft pi (windowed_padded pi [1, 2] 2 (2 ^ k)) ! i))\<^sup>2
                      + (Im (fft pi (windowed_padded pi [1, 2] 2 (2 ^ k)) ! i))\<^sup>2)
               [0..<2 ^ k div 2]"
    by blast
  have "k \<le> 1"
    using k(2) [rule_format, of 1] by simp
  moreover have "k \<noteq> 0"
    using k(1) by (intro notI) simp
  ultimately have k1: "k = 1"
    by simp
  have buffer: "windowed_padded pi [1, 2] 2 2 = [0, 0]"
    by (simp add: windowed_padded_def hann_window_def upt_rec numeral_2_eq_2)
  have "fft pi [0, 0] = [0, 0]"
    by (simp add: fft.simps [of _ "[0, 0]"] fft.simps [of _ "[0]"] fft_divide_def
        fft_combine_def for_loop.simps Let_def)
  then have "psd = [0]"
    using psd by (simp add: k1 buffer)
  then show ?thesis
    using run by simp
qed

section \<open>FFT: the split and the combine loop\<close>

lemma fft_divide_eq:
  "fft_divide data =
     (map (\<lambda>j. data ! (2 * j)) [0..<(length data + 1) div 2],
      map (\<lambda>j. data ! (2 * j + 1)) [0..<length data div 2])"
proof -
  have "fold (\<lambda>i (evens, odds).
          if i mod 2 = 0 then (evens @ [data ! i], odds) else (evens, odds @ [data ! i]))
        [0..<n] ([], [])
      = (map (\<lambda>j. data ! (2 * j)) [0..<(n + 1) div 2],
         map (\<lambda>j. data ! (2 * j + 1)) [0..<n div 2])" for n
  proof (induction n)
    case 0
    then show ?case by simp
  next
    case (Suc n)
    show ?case
    proof (cases "n mod 2 = 0")
      case True
      then have "(Suc n + 1) div 2 = Suc ((n + 1) div 2)" "Suc n div 2 = n div 2"
        "2 * ((n + 1) div 2) = n"
        by presburger+
      then show ?thesis
        using Suc True by simp
    next
      case False
      then have "(Suc n + 1) div 2 = (n + 1) div 2" "Suc n div 2 = Suc (n div 2)"
        "Suc (2 * (n div 2)) = n"
        by presburger+
      then show ?thesis
        using Suc False by simp
    qed
  qed
  then show ?thesis
    by (simp add: fft_divide_def for_loop_fold)
qed

lemma two_cell_fold:
  assumes "h + h \<le> length d0" and "m \<le> h"
  shows "length (fold (\<lambda>k d. (d[k := a k])[k + h := b k]) [0..<m] d0) = length d0
    \<and> (\<forall>k<m. fold (\<lambda>k d. (d[k := a k])[k + h := b k]) [0..<m] d0 ! k = a k
            \<and> fold (\<lambda>k d. (d[k := a k])[k + h := b k]) [0..<m] d0 ! (k + h) = b k)"
  using assms(2)
proof (induction m)
  case 0
  then show ?case by simp
next
  case (Suc m)
  let ?D = "fold (\<lambda>k d. (d[k := a k])[k + h := b k]) [0..<m] d0"
  have "m \<le> h"
    using Suc.prems by simp
  note IH = Suc.IH [OF this]
  have ih: "length ?D = length d0" "\<And>k. k < m \<Longrightarrow> ?D ! k = a k"
    "\<And>k. k < m \<Longrightarrow> ?D ! (k + h) = b k"
    using IH by blast+
  have step: "fold (\<lambda>k d. (d[k := a k])[k + h := b k]) [0..<Suc m] d0
      = (?D[m := a m])[m + h := b m]"
    by simp
  have m: "m < h" "m < length ?D" "m + h < length ?D"
    using Suc.prems assms(1) ih(1) by simp_all
  have "(?D[m := a m])[m + h := b m] ! k = a k \<and> (?D[m := a m])[m + h := b m] ! (k + h) = b k"
    if "k < Suc m" for k
  proof (cases "k = m")
    case True
    then show ?thesis
      using m by simp
  next
    case False
    then have "k < m"
      using that by simp
    then show ?thesis
      using ih(2,3) m(1) by simp
  qed
  then show ?case
    unfolding step using ih(1) by simp
qed

lemma fft_combine_nth:
  assumes "k < length data div 2"
  shows "fft_combine PI evens odds data ! k
      = evens ! k + cis (- 2 * PI * real k / real (length data)) * odds ! k"
    and "fft_combine PI evens odds data ! (k + length data div 2)
      = evens ! k - cis (- 2 * PI * real k / real (length data)) * odds ! k"
proof -
  define h where "h = length data div 2"
  have "h + h \<le> length data" "h \<le> h"
    by (simp_all add: h_def)
  from two_cell_fold [OF this,
      of "\<lambda>k. evens ! k + cis (- 2 * PI * real k / real (length data)) * odds ! k"
         "\<lambda>k. evens ! k - cis (- 2 * PI * real k / real (length data)) * odds ! k"]
  have "\<forall>k<h. fft_combine PI evens odds data ! k
        = evens ! k + cis (- 2 * PI * real k / real (length data)) * odds ! k
      \<and> fft_combine PI evens odds data ! (k + h)
        = evens ! k - cis (- 2 * PI * real k / real (length data)) * odds ! k"
    by (simp add: fft_combine_def Let_def for_loop_fold h_def)
  then show "fft_combine PI evens odds data ! k
      = evens ! k + cis (- 2 * PI * real k / real (length data)) * odds ! k"
    and "fft_combine PI evens odds data ! (k + length data div 2)
      = evens ! k - cis (- 2 * PI * real k / real (length data)) * odds ! k"
    using assms by (simp_all add: h_def)
qed

section \<open>FFT: the discrete Fourier transform\<close>

lemma cis_nat_turns: "cis (- (2 * pi * real j)) = 1"
proof -
  have "cis (2 * pi * real j) = 1"
    by (rule cis_multiple_2pi) simp
  moreover have "cis (- (2 * pi * real j)) = cnj (cis (2 * pi * real j))"
    by (simp only: cis_cnj)
  ultimately show ?thesis
    by simp
qed

lemma cis_minus_pi: "cis (- pi) = - 1"
  by (simp add: complex_eq_iff)

lemma sum_even_odd:
  fixes F :: "nat \<Rightarrow> complex"
  shows "(\<Sum>n<2 * h. F n) = (\<Sum>j<h. F (2 * j)) + (\<Sum>j<h. F (2 * j + 1))"
  by (induction h) (simp_all add: algebra_simps)

lemma dft_sum_lower:
  assumes "0 < h"
  shows "dft_sum (2 * h) x k
    = dft_sum h (\<lambda>j. x (2 * j)) k
      + cis (- 2 * pi * real k / real (2 * h)) * dft_sum h (\<lambda>j. x (2 * j + 1)) k"
proof -
  have ev: "x (2 * j) * cis (- 2 * pi * real (2 * j) * real k / real (2 * h))
      = x (2 * j) * cis (- 2 * pi * real j * real k / real h)" for j
  proof -
    have "- 2 * pi * real (2 * j) * real k / real (2 * h) = - 2 * pi * real j * real k / real h"
      by simp
    then show ?thesis
      by (simp only:)
  qed
  have od: "x (2 * j + 1) * cis (- 2 * pi * real (2 * j + 1) * real k / real (2 * h))
      = cis (- 2 * pi * real k / real (2 * h))
        * (x (2 * j + 1) * cis (- 2 * pi * real j * real k / real h))" for j
  proof -
    have "- 2 * pi * real (2 * j + 1) * real k / real (2 * h)
        = - 2 * pi * real k / real (2 * h) + - 2 * pi * real j * real k / real h"
      using assms by (simp add: field_simps)
    then have "cis (- 2 * pi * real (2 * j + 1) * real k / real (2 * h))
        = cis (- 2 * pi * real k / real (2 * h)) * cis (- 2 * pi * real j * real k / real h)"
      by (simp only: cis_mult)
    then show ?thesis
      by (simp only: mult_ac)
  qed
  show ?thesis
    unfolding dft_sum_def sum_even_odd ev od by (simp add: sum_distrib_left)
qed

lemma dft_sum_upper:
  assumes "0 < h"
  shows "dft_sum (2 * h) x (k + h)
    = dft_sum h (\<lambda>j. x (2 * j)) k
      - cis (- 2 * pi * real k / real (2 * h)) * dft_sum h (\<lambda>j. x (2 * j + 1)) k"
proof -
  have ev: "x (2 * j) * cis (- 2 * pi * real (2 * j) * real (k + h) / real (2 * h))
      = x (2 * j) * cis (- 2 * pi * real j * real k / real h)" for j
  proof -
    have "- 2 * pi * real (2 * j) * real (k + h) / real (2 * h)
        = - 2 * pi * real j * real k / real h + - (2 * pi * real j)"
      using assms by (simp add: field_simps)
    then have "cis (- 2 * pi * real (2 * j) * real (k + h) / real (2 * h))
        = cis (- 2 * pi * real j * real k / real h) * cis (- (2 * pi * real j))"
      by (simp only: cis_mult)
    then show ?thesis
      by (simp only: cis_nat_turns mult_1_right)
  qed
  have od: "x (2 * j + 1) * cis (- 2 * pi * real (2 * j + 1) * real (k + h) / real (2 * h))
      = - (cis (- 2 * pi * real k / real (2 * h))
        * (x (2 * j + 1) * cis (- 2 * pi * real j * real k / real h)))" for j
  proof -
    have "- 2 * pi * real (2 * j + 1) * real (k + h) / real (2 * h)
        = (- 2 * pi * real k / real (2 * h) + - 2 * pi * real j * real k / real h)
          + (- (2 * pi * real j) + - pi)"
      using assms by (simp add: field_simps)
    then have "cis (- 2 * pi * real (2 * j + 1) * real (k + h) / real (2 * h))
        = cis (- 2 * pi * real k / real (2 * h)) * cis (- 2 * pi * real j * real k / real h)
          * (cis (- (2 * pi * real j)) * cis (- pi))"
      by (simp only: cis_mult)
    then show ?thesis
      by (simp only: cis_nat_turns cis_minus_pi) (simp add: mult_ac)
  qed
  show ?thesis
    unfolding dft_sum_def sum_even_odd ev od
    by (simp add: sum_distrib_left sum_negf)
qed

lemma dft_sum_cong:
  "(\<And>n. n < N \<Longrightarrow> x n = y n) \<Longrightarrow> dft_sum N x k = dft_sum N y k"
  by (simp add: dft_sum_def)

lemma fft_unfold:
  assumes "1 < length data"
  shows "fft PI data
    = fft_combine PI
        (fft PI (map (\<lambda>j. data ! (2 * j)) [0..<(length data + 1) div 2]))
        (fft PI (map (\<lambda>j. data ! (2 * j + 1)) [0..<length data div 2]))
        data"
  using assms by (subst fft.simps) (simp add: fft_divide_eq)

lemma fft_nth_dft_sum:
  "length data = 2 ^ m \<Longrightarrow> k < 2 ^ m \<Longrightarrow> fft pi data ! k = dft_sum (2 ^ m) (\<lambda>n. data ! n) k"
proof (induction m arbitrary: data k)
  case 0
  then have "fft pi data = data" "k = 0"
    by (simp_all add: fft.simps)
  then show ?case
    by (simp add: dft_sum_def)
next
  case (Suc m)
  define h :: nat where "h = 2 ^ m"
  define evens where "evens = map (\<lambda>j. data ! (2 * j)) [0..<h]"
  define odds where "odds = map (\<lambda>j. data ! (2 * j + 1)) [0..<h]"
  have h: "0 < h" "length data = 2 * h" "(2::nat) ^ Suc m = 2 * h"
    using Suc.prems(1) by (simp_all add: h_def)
  have halves: "(length data + 1) div 2 = h" "length data div 2 = h"
    using h(2) by simp_all
  have run: "fft pi data = fft_combine pi (fft pi evens) (fft pi odds) data"
    using fft_unfold [of data pi] h(1,2) by (simp add: halves evens_def odds_def)
  have ev: "fft pi evens ! j = dft_sum h (\<lambda>n. data ! (2 * n)) j" if "j < h" for j
  proof -
    have "fft pi evens ! j = dft_sum (2 ^ m) (\<lambda>n. evens ! n) j"
      using that by (intro Suc.IH) (simp_all add: evens_def h_def)
    also have "\<dots> = dft_sum h (\<lambda>n. data ! (2 * n)) j"
      unfolding h_def [symmetric] by (rule dft_sum_cong) (simp add: evens_def)
    finally show ?thesis .
  qed
  have od: "fft pi odds ! j = dft_sum h (\<lambda>n. data ! (2 * n + 1)) j" if "j < h" for j
  proof -
    have "fft pi odds ! j = dft_sum (2 ^ m) (\<lambda>n. odds ! n) j"
      using that by (intro Suc.IH) (simp_all add: odds_def h_def)
    also have "\<dots> = dft_sum h (\<lambda>n. data ! (2 * n + 1)) j"
      unfolding h_def [symmetric] by (rule dft_sum_cong) (simp add: odds_def)
    finally show ?thesis .
  qed
  show ?case
  proof (cases "k < h")
    case True
    then have "fft pi data ! k
        = fft pi evens ! k + cis (- 2 * pi * real k / real (2 * h)) * fft pi odds ! k"
      using fft_combine_nth(1) [of k data pi "fft pi evens" "fft pi odds"] h(2)
      by (simp add: run)
    also have "\<dots> = dft_sum (2 * h) (\<lambda>n. data ! n) k"
      using True by (simp only: ev od dft_sum_lower [OF h(1)])
    finally show ?thesis
      by (simp only: h(3))
  next
    case False
    define j where "j = k - h"
    have j: "j < h" "k = j + h"
      using False Suc.prems(2) h(3) by (simp_all add: j_def)
    have "fft pi data ! (j + h)
        = fft pi evens ! j - cis (- 2 * pi * real j / real (2 * h)) * fft pi odds ! j"
      using fft_combine_nth(2) [of j data pi "fft pi evens" "fft pi odds"] h(2) j(1)
      by (simp add: run)
    also have "\<dots> = dft_sum (2 * h) (\<lambda>n. data ! n) (j + h)"
      using j(1) by (simp only: ev od dft_sum_upper [OF h(1)])
    finally show ?thesis
      by (simp only: h(3) j(2))
  qed
qed

text \<open>
  Claim C2. On a complex vector whose length \<open>N\<close> is a power of two, the recursive
  \<open>fft\<close> computes the discrete Fourier transform
  \<open>X[k] = \<Sum>n. x[n] * exp (- 2 * pi * \<i> * n * k / N)\<close> (with the number \<open>pi\<close> for the
  constant). It does so by the even/odd split: a vector of length at most 1 is returned
  as it is; otherwise, with \<open>E\<close> and \<open>O\<close> the transforms of the even-indexed and the
  odd-indexed elements, \<open>X[k] = E[k] + exp (- 2 * PI * \<i> * k / N) * O[k]\<close> and
  \<open>X[k + N/2] = E[k] - exp (- 2 * PI * \<i> * k / N) * O[k]\<close> for \<open>k\<close> in \<open>[0, N/2)\<close>
  (this for every value of the constant).
\<close>

theorem fft_is_dft:
  assumes "length data = 2 ^ m"
  shows "fft pi data = dft data
    \<and> (length data \<le> 1 \<longrightarrow> fft PI data = data)
    \<and> (1 < length data \<and> k < length data div 2 \<longrightarrow>
      fft PI data ! k
        = fft PI (map (\<lambda>j. data ! (2 * j)) [0..<length data div 2]) ! k
          + cis (- 2 * PI * real k / real (length data))
            * fft PI (map (\<lambda>j. data ! (2 * j + 1)) [0..<length data div 2]) ! k
      \<and> fft PI data ! (k + length data div 2)
        = fft PI (map (\<lambda>j. data ! (2 * j)) [0..<length data div 2]) ! k
          - cis (- 2 * PI * real k / real (length data))
            * fft PI (map (\<lambda>j. data ! (2 * j + 1)) [0..<length data div 2]) ! k)"
proof -
  have transform: "fft pi data = dft data"
  proof (rule nth_equalityI)
    show "length (fft pi data) = length (dft data)"
      by (simp add: fft_length dft_def)
  next
    fix k assume "k < length (fft pi data)"
    then have "k < 2 ^ m"
      using assms by (simp add: fft_length)
    then show "fft pi data ! k = dft data ! k"
      using fft_nth_dft_sum [OF assms] assms by (simp add: dft_def)
  qed
  have base: "length data \<le> 1 \<longrightarrow> fft PI data = data"
    by (simp add: fft.simps)
  have combine: "1 < length data \<and> k < length data div 2 \<longrightarrow>
      fft PI data ! k
        = fft PI (map (\<lambda>j. data ! (2 * j)) [0..<length data div 2]) ! k
          + cis (- 2 * PI * real k / real (length data))
            * fft PI (map (\<lambda>j. data ! (2 * j + 1)) [0..<length data div 2]) ! k
      \<and> fft PI data ! (k + length data div 2)
        = fft PI (map (\<lambda>j. data ! (2 * j)) [0..<length data div 2]) ! k
          - cis (- 2 * PI * real k / real (length data))
            * fft PI (map (\<lambda>j. data ! (2 * j + 1)) [0..<length data div 2]) ! k"
  proof (intro impI, elim conjE)
    assume big: "1 < length data" and k: "k < length data div 2"
    have "m \<noteq> 0"
      using assms big by (intro notI) simp
    then have "even (length data)"
      using assms by simp
    then have half: "Suc (length data) div 2 = length data div 2"
      by presburger
    show "fft PI data ! k
        = fft PI (map (\<lambda>j. data ! (2 * j)) [0..<length data div 2]) ! k
          + cis (- 2 * PI * real k / real (length data))
            * fft PI (map (\<lambda>j. data ! (2 * j + 1)) [0..<length data div 2]) ! k
      \<and> fft PI data ! (k + length data div 2)
        = fft PI (map (\<lambda>j. data ! (2 * j)) [0..<length data div 2]) ! k
          - cis (- 2 * PI * real k / real (length data))
            * fft PI (map (\<lambda>j. data ! (2 * j + 1)) [0..<length data div 2]) ! k"
      using fft_combine_nth [OF k, of PI] by (simp add: fft_unfold [OF big] half)
  qed
  show ?thesis
    using transform base combine by (intro conjI)
qed

theorem fft_is_dft_witness:
  "length [1, 2 :: complex] = 2 ^ 1
   \<and> fft pi [1, 2] = dft [1, 2]
   \<and> dft [1, 2] = [3, - 1]
   \<and> fft 3 [1, 2] ! 0 = fft 3 [1] ! 0 + cis 0 * fft 3 [2] ! 0
   \<and> fft 3 [1, 2] ! 1 = fft 3 [1] ! 0 - cis 0 * fft 3 [2] ! 0
   \<and> fft 3 [1] = [1]"
proof -
  have len: "length [1, 2 :: complex] = 2 ^ 1"
    by simp
  have "dft [1, 2] = [3, - 1]"
    by (simp add: dft_def dft_sum_def upt_rec numeral_2_eq_2 cis_minus_pi)
  then show ?thesis
    using len fft_is_dft [OF len, of 3 0] fft_is_dft [of "[1]" 0 3 0]
    by (simp add: upt_rec)
qed

section \<open>Rate estimates\<close>

text \<open>
  Claim C8. For a non-null signal and \<open>length > 0\<close>, \<open>calculate_heart_rate_fft\<close> is 60 times
  the peak frequency of the power spectrum of the signal as given, searched in the band
  \<open>[min_bpm / 60, max_bpm / 60]\<close>: nothing filters the signal first.
  \<open>calculate_respiration_rate\<close>, when its band-pass call succeeds, is the same composition
  on the signal filtered through [0.1, 0.7] Hz. An out-of-bounds access of the composition
  is one of the rate function.
\<close>

theorem rate_estimates_composition:
  assumes "0 < len"
  shows "calculate_heart_rate_fft PI (Some sig) len sample_rate min_bpm max_bpm
      = spectral_rate PI (Some sig) len sample_rate min_bpm max_bpm
    \<and> (\<forall>filtered.
          bandpass_filter PI (Some sig) (Some (replicate (nat len) 0)) len sample_rate 0.1 0.7
            = Inr (1, filtered)
          \<longrightarrow> calculate_respiration_rate PI (Some sig) len sample_rate min_brpm max_brpm
            = spectral_rate PI filtered len sample_rate min_brpm max_brpm)
    \<and> (band_valid sample_rate 0.1 0.7 \<and> len \<le> int (length sig)
          \<longrightarrow> calculate_respiration_rate PI (Some sig) len sample_rate min_brpm max_brpm
            = spectral_rate PI
                (Some (map (cascade_spec PI sample_rate 0.1 0.7 sig) [0..<nat len]))
                len sample_rate min_brpm max_brpm)"
proof -
  have heart: "calculate_heart_rate_fft PI (Some sig) len sample_rate min_bpm max_bpm
      = spectral_rate PI (Some sig) len sample_rate min_bpm max_bpm"
    using assms
    by (simp add: calculate_heart_rate_fft_def spectral_rate_def Let_def map_sum_def
        split: sum.splits)
  have resp: "calculate_respiration_rate PI (Some sig) len sample_rate min_brpm max_brpm
      = spectral_rate PI filtered len sample_rate min_brpm max_brpm"
    if "bandpass_filter PI (Some sig) (Some (replicate (nat len) 0)) len sample_rate 0.1 0.7
          = Inr (1, filtered)" for filtered
    using assms that
    by (simp add: calculate_respiration_rate_def spectral_rate_def Let_def map_sum_def
        split: sum.splits)
  have cascade: "calculate_respiration_rate PI (Some sig) len sample_rate min_brpm max_brpm
      = spectral_rate PI (Some (map (cascade_spec PI sample_rate 0.1 0.7 sig) [0..<nat len]))
          len sample_rate min_brpm max_brpm"
    if "band_valid sample_rate 0.1 0.7" and "len \<le> int (length sig)"
  proof -
    have "len \<le> int (length (replicate (nat len) (0::real)))"
      by simp
    from bandpass_filter_success [OF assms that(1,2) this, of PI]
    show ?thesis
      by (intro resp) simp
  qed
  show ?thesis
    using heart resp cascade by blast
qed

text \<open>
  A window on which both estimates are computed and differ. Five samples
  \<open>8, 8, -101, -8, 0\<close> at the sample rate \<open>7 * pi / 5\<close>, for which the coefficients of
  the [0.1, 0.7] Hz band-pass are \<open>alpha_high = 1 / 2\<close> and \<open>alpha_low = 1 / 8\<close> and
  the frequency resolution is \<open>7 * pi / 40\<close>; the search band is bins 1 to 3. The
  transform of the padded window of eight samples is computed by unfolding \<open>fft\<close>.
\<close>

lemma fft_two: "fft PI [a, b] = [a + b, a - b]"
  by (simp add: fft.simps [of _ "[a, b]"] fft.simps [of _ "[a]"] fft.simps [of _ "[b]"]
      fft_divide_def fft_combine_def for_loop_fold upt_rec numeral_eq_Suc Let_def)

lemma half_of_four: "Suc (Suc (Suc (Suc 0))) div 2 = 2"
  by simp

lemma half_of_eight: "Suc (Suc (Suc (Suc (Suc (Suc (Suc (Suc 0))))))) div 2 = 4"
  by simp

lemma fft_four:
  "fft pi [a, b, c, d]
    = [a + c + (b + d), a - c - \<i> * (b - d), a + c - (b + d), a - c + \<i> * (b - d)]"
  by (simp add: fft.simps [of _ "[a, b, c, d]"] fft_two half_of_four
      fft_divide_def fft_combine_def for_loop_fold upt_rec Let_def cis_minus_pi_half)

lemma fft_eight:
  "fft pi [0, u, v, w, 0, 0, 0, 0] =
    [v + (u + w),
     cis (- (pi / 4)) * (u - \<i> * w) - \<i> * v,
     - v - \<i> * (u - w),
     \<i> * v + cis (- (pi * 3 / 4)) * (u + \<i> * w),
     v - (u + w),
     - (\<i> * v) - cis (- (pi / 4)) * (u - \<i> * w),
     \<i> * (u - w) - v,
     \<i> * v - cis (- (pi * 3 / 4)) * (u + \<i> * w)]"
  by (simp add: fft.simps [of _ "[0, u, v, w, 0, 0, 0, 0]"] fft_four half_of_eight
      fft_divide_def fft_combine_def for_loop_fold upt_rec Let_def cis_minus_pi_half)

lemma cis_eighth_turn: "cis (- (pi / 4)) = Complex (sqrt 2 / 2) (- (sqrt 2 / 2))"
  by (simp add: complex_eq_iff cos_45 sin_45)

lemma cis_three_eighths_turn: "cis (- (pi * 3 / 4)) = Complex (- (sqrt 2 / 2)) (- (sqrt 2 / 2))"
proof -
  have angle: "pi * 3 / 4 = pi - pi / 4"
    by simp
  have "cos (pi - pi / 4) = - cos (pi / 4)" "sin (pi - pi / 4) = sin (pi / 4)"
    by (simp_all only: cos_pi_minus sin_pi_minus)
  then have "cos (pi * 3 / 4) = - (sqrt 2 / 2)" "sin (pi * 3 / 4) = sqrt 2 / 2"
    by (simp_all only: angle cos_45 sin_45)
  then show ?thesis
    by (simp add: complex_eq_iff)
qed

lemma cos_three_half_pi: "cos (pi * 3 / 2) = 0"
proof -
  have "pi * 3 / 2 = 3 / 2 * pi"
    by simp
  then show ?thesis
    by (simp only: cos_3over2_pi)
qed

lemma fft_size_loop_5: "fft_size_loop 1 5 = Some (2 ^ 3)"
  by (simp add: fft_size_loop.simps [of 1] fft_size_loop.simps [of 2] fft_size_loop.simps [of 4]
      fft_size_loop.simps [of 8])

lemma window_raw:
  "windowed_padded pi [8, 8, - 101, - 8, 0] 5 8 = [0, 4, - 101, - 4, 0, 0, 0, 0]"
  by (simp add: windowed_padded_def hann_window_def upt_rec numeral_eq_Suc complex_eq_iff
      cos_three_half_pi)

lemma psd_raw:
  "calculate_psd pi (Some [8, 8, - 101, - 8, 0]) 5 = Inr [10201, 10233, 10265, 10233]"
  using calculate_psd_closed [OF _ _ fft_size_loop_5, of "[8, 8, - 101, - 8, 0]" pi]
  by (simp add: window_raw fft_eight cis_eighth_turn cis_three_eighths_turn upt_rec
      power2_eq_square algebra_simps)

lemma window_filtered:
  "windowed_padded pi [8, 15 / 2, 0, 81 / 32, 1019 / 256] 5 8
    = [0, 15 / 4, 0, 81 / 64, 0, 0, 0, 0]"
  by (simp add: windowed_padded_def hann_window_def upt_rec numeral_eq_Suc complex_eq_iff
      cos_three_half_pi)

lemma psd_filtered:
  "calculate_psd pi (Some [8, 15 / 2, 0, 81 / 32, 1019 / 256]) 5
    = Inr [103041 / 4096, 64161 / 4096, 25281 / 4096, 64161 / 4096]"
  using calculate_psd_closed [OF _ _ fft_size_loop_5, of "[8, 15 / 2, 0, 81 / 32, 1019 / 256]" pi]
  by (simp add: window_filtered fft_eight cis_eighth_turn cis_three_eighths_turn upt_rec
      power2_eq_square algebra_simps)

lemma band_valid_window: "band_valid (7 * pi / 5) 0.1 0.7"
proof -
  have "1 < pi"
    using pi_ge_two by linarith
  then show ?thesis
    by (simp add: band_valid_def field_simps)
qed

lemma cascade_window:
  "map (cascade_spec pi (7 * pi / 5) 0.1 0.7 [8, 8, - 101, - 8, 0]) [0..<nat 5]
    = [8, 15 / 2, 0, 81 / 32, 1019 / 256]"
  by (simp add: cascade_spec_def Let_def upt_rec numeral_eq_Suc)

text \<open>
  The filtered window is \<open>8, 15 / 2, 0, 81 / 32, 1019 / 256\<close>. The spectrum of the
  window as given peaks at bin 2 and the heart rate is \<open>60 * (2 * 7 * pi / 40) = 21 * pi\<close>;
  the spectrum of the filtered window peaks at bin 1 and the respiration rate is
  \<open>21 * pi / 2\<close>.
\<close>

theorem rate_estimates_composition_witness:
  "0 < (5::int) \<and> band_valid (7 * pi / 5) 0.1 0.7 \<and> 5 \<le> int (length [8, 8, - 101, - 8, 0 :: real])
   \<and> bandpass_filter pi (Some [8, 8, - 101, - 8, 0]) (Some (replicate (nat 5) 0)) 5 (7 * pi / 5) 0.1 0.7
       = Inr (1, Some [8, 15 / 2, 0, 81 / 32, 1019 / 256])
   \<and> calculate_psd pi (Some [8, 8, - 101, - 8, 0]) 5 = Inr [10201, 10233, 10265, 10233]
   \<and> calculate_psd pi (Some [8, 15 / 2, 0, 81 / 32, 1019 / 256]) 5
       = Inr [103041 / 4096, 64161 / 4096, 25281 / 4096, 64161 / 4096]
   \<and> calculate_heart_rate_fft pi (Some [8, 8, - 101, - 8, 0]) 5 (7 * pi / 5) (21 * pi / 2) (63 * pi / 2)
       = Inr (21 * pi)
   \<and> calculate_respiration_rate pi (Some [8, 8, - 101, - 8, 0]) 5 (7 * pi / 5) (21 * pi / 2) (63 * pi / 2)
       = Inr (21 * pi / 2)"
proof -
  have len: "0 < (5::int)" and fits: "5 \<le> int (length [8, 8, - 101, - 8, 0 :: real])"
    by simp_all
  have fits': "5 \<le> int (length (replicate (nat 5) (0::real)))"
    by simp
  have run: "bandpass_filter pi (Some [8, 8, - 101, - 8, 0]) (Some (replicate (nat 5) 0)) 5 (7 * pi / 5) 0.1 0.7
       = Inr (1, Some [8, 15 / 2, 0, 81 / 32, 1019 / 256])"
    using bandpass_filter_success [OF len band_valid_window fits fits', of pi] by (simp only: cascade_window) simp
  note composition = rate_estimates_composition [OF len, of pi "[8, 8, - 101, - 8, 0]" "7 * pi / 5"
      "21 * pi / 2" "63 * pi / 2" "21 * pi / 2" "63 * pi / 2"]
  have heart: "calculate_heart_rate_fft pi (Some [8, 8, - 101, - 8, 0]) 5 (7 * pi / 5) (21 * pi / 2) (63 * pi / 2)
       = Inr (21 * pi)"
    unfolding composition [THEN conjunct1] spectral_rate_def psd_raw
    by (simp add: find_peak_frequency_unfold clamped_min_bin_def clamped_max_bin_def
      freq_resolution_def float_to_int_def peak_scan.simps)
  have "calculate_respiration_rate pi (Some [8, 8, - 101, - 8, 0]) 5 (7 * pi / 5) (21 * pi / 2) (63 * pi / 2)
      = spectral_rate pi (Some (map (cascade_spec pi (7 * pi / 5) 0.1 0.7 [8, 8, - 101, - 8, 0]) [0..<nat 5]))
          5 (7 * pi / 5) (21 * pi / 2) (63 * pi / 2)"
    by (rule mp [OF composition [THEN conjunct2, THEN conjunct2] conjI [OF band_valid_window fits]])
  then have resp: "calculate_respiration_rate pi (Some [8, 8, - 101, - 8, 0]) 5 (7 * pi / 5) (21 * pi / 2) (63 * pi / 2)
       = Inr (21 * pi / 2)"
    unfolding cascade_window spectral_rate_def psd_filtered
    by (simp add: find_peak_frequency_unfold clamped_min_bin_def clamped_max_bin_def
      freq_resolution_def float_to_int_def peak_scan.simps)
  show ?thesis
    using len band_valid_window fits run psd_raw psd_filtered heart resp by (intro conjI)
qed

section \<open>Detrending\<close>

lemma accumulate_loop:
  fixes f :: "nat \<Rightarrow> real"
  shows "for_loop 0 n (\<lambda>i acc. acc + f i) a = a + (\<Sum>i<n. f i)"
  unfolding for_loop_fold by (induction n) simp_all

lemma remove_mean_eq:
  assumes "nat len \<le> length signal"
  shows "remove_mean signal len
    = map (\<lambda>i. signal ! i - (\<Sum>i<nat len. signal ! i) / real_of_int len) [0..<nat len]
      @ drop (nat len) signal"
  using pointwise_loop [OF _ assms, of 0 "\<lambda>i v. v - (\<Sum>i<nat len. signal ! i) / real_of_int len"]
  by (simp add: remove_mean_def Let_def accumulate_loop)

lemma regression_sums_eq:
  "regression_sums y len =
     (\<Sum>i<nat len. real i, \<Sum>i<nat len. y ! i, \<Sum>i<nat len. real i * y ! i,
      \<Sum>i<nat len. real_of_int (mul_int32 (int i) (int i)))"
proof -
  have "fold (\<lambda>i (sum_x, sum_y, sum_xy, sum_x2).
          (sum_x + real i, sum_y + y ! i, sum_xy + real i * y ! i,
           sum_x2 + real_of_int (mul_int32 (int i) (int i))))
        [0..<n] (0, 0, 0, 0)
      = (\<Sum>i<n. real i, \<Sum>i<n. y ! i, \<Sum>i<n. real i * y ! i,
         \<Sum>i<n. real_of_int (mul_int32 (int i) (int i)))" for n
    by (induction n) simp_all
  then show ?thesis
    by (simp add: regression_sums_def for_loop_fold)
qed

lemma detrend_signal_eq:
  assumes "nat len \<le> length signal"
  shows "detrend_signal signal len =
     (let y = remove_mean signal len;
          (sum_x, sum_y, sum_xy, sum_x2) = regression_sums y len;
          slope = (real_of_int len * sum_xy - sum_x * sum_y)
                    / (real_of_int len * sum_x2 - sum_x * sum_x);
          intercept = (sum_y - slope * sum_x) / real_of_int len
      in map (\<lambda>i. y ! i - (slope * real i + intercept)) [0..<nat len] @ drop (nat len) y)"
proof -
  have "nat len \<le> length (remove_mean signal len)"
    using assms by (simp add: remove_mean_eq)
  from pointwise_loop [OF _ this, of 0]
  show ?thesis
    by (simp add: detrend_signal_def Let_def split_beta)
qed

text \<open>
  The algebra of the fit, on sequences: whatever slope is subtracted together with the
  intercept the code derives from it, the residual sums to zero, and the numerator of its
  least-squares slope is the numerator of the data's minus \<open>slope\<close> times the exact
  denominator.
\<close>

lemma residual_sums:
  fixes y :: "nat \<Rightarrow> real" and slope :: real
  assumes "0 < n"
  defines "icpt \<equiv> ((\<Sum>i<n. y i) - slope * (\<Sum>i<n. real i)) / real n"
  shows "(\<Sum>i<n. y i - (slope * real i + icpt)) = 0"
    and "real n * (\<Sum>i<n. real i * (y i - (slope * real i + icpt)))
          - (\<Sum>i<n. real i) * (\<Sum>i<n. y i - (slope * real i + icpt))
        = (real n * (\<Sum>i<n. real i * y i) - (\<Sum>i<n. real i) * (\<Sum>i<n. y i))
          - slope * (real n * (\<Sum>i<n. (real i)\<^sup>2) - (\<Sum>i<n. real i)\<^sup>2)"
proof -
  define Sx where "Sx = (\<Sum>i<n. real i)"
  define Sy where "Sy = (\<Sum>i<n. y i)"
  define Sxy where "Sxy = (\<Sum>i<n. real i * y i)"
  define S2 where "S2 = (\<Sum>i<n. (real i)\<^sup>2)"
  define Sz where "Sz = (\<Sum>i<n. y i - (slope * real i + icpt))"
  define Sxz where "Sxz = (\<Sum>i<n. real i * (y i - (slope * real i + icpt)))"
  have n: "real n \<noteq> 0"
    using assms(1) by simp
  have ni: "real n * icpt = Sy - slope * Sx"
    using n by (simp add: icpt_def Sx_def Sy_def)
  have "Sz = Sy - slope * Sx - real n * icpt"
    by (simp add: Sz_def Sy_def Sx_def sum_subtractf sum.distrib sum_distrib_left)
  then have zero: "Sz = 0"
    unfolding ni by simp
  have "Sxz = Sxy - slope * S2 - icpt * Sx"
    by (simp add: Sxz_def Sxy_def S2_def Sx_def sum_subtractf sum.distrib sum_distrib_left
        algebra_simps power2_eq_square)
  then have "real n * Sxz = real n * (Sxy - slope * S2 - icpt * Sx)"
    by (simp only:)
  also have "\<dots> = real n * Sxy - slope * (real n * S2) - (real n * icpt) * Sx"
    by (simp add: algebra_simps)
  finally have "real n * Sxz = real n * Sxy - slope * (real n * S2) - (real n * icpt) * Sx" .
  then have "real n * Sxz - Sx * Sz = (real n * Sxy - Sx * Sy) - slope * (real n * S2 - Sx\<^sup>2)"
    unfolding ni zero by (simp add: algebra_simps power2_eq_square)
  then show "real n * (\<Sum>i<n. real i * (y i - (slope * real i + icpt)))
          - (\<Sum>i<n. real i) * (\<Sum>i<n. y i - (slope * real i + icpt))
        = (real n * (\<Sum>i<n. real i * y i) - (\<Sum>i<n. real i) * (\<Sum>i<n. y i))
          - slope * (real n * (\<Sum>i<n. (real i)\<^sup>2) - (\<Sum>i<n. real i)\<^sup>2)"
    unfolding Sx_def Sy_def Sxy_def S2_def Sz_def Sxz_def .
  show "(\<Sum>i<n. y i - (slope * real i + icpt)) = 0"
    using zero unfolding Sz_def .
qed

lemma sum_index: "2 * (\<Sum>i<n. real i) = real n * (real n - 1)"
  by (induction n) (simp_all add: algebra_simps)

lemma sum_index_squares: "6 * (\<Sum>i<n. (real i)\<^sup>2) = (real n - 1) * real n * (2 * real n - 1)"
  by (induction n) (simp_all add: algebra_simps power2_eq_square)

lemma exact_denominator:
  "12 * (real n * (\<Sum>i<n. (real i)\<^sup>2) - (\<Sum>i<n. real i)\<^sup>2)
    = (real n)\<^sup>2 * (real n - 1) * (real n + 1)"
proof -
  have "12 * (real n * (\<Sum>i<n. (real i)\<^sup>2) - (\<Sum>i<n. real i)\<^sup>2)
      = 2 * real n * (6 * (\<Sum>i<n. (real i)\<^sup>2)) - 3 * (2 * (\<Sum>i<n. real i))\<^sup>2"
    by (simp add: power2_eq_square algebra_simps)
  also have "\<dots> = (real n)\<^sup>2 * (real n - 1) * (real n + 1)"
    unfolding sum_index sum_index_squares by (simp add: power2_eq_square algebra_simps)
  finally show ?thesis .
qed

lemma exact_denominator_pos:
  assumes "2 \<le> n"
  shows "0 < real n * (\<Sum>i<n. (real i)\<^sup>2) - (\<Sum>i<n. real i)\<^sup>2"
proof -
  have "0 < (real n)\<^sup>2 * (real n - 1) * (real n + 1)"
    using assms by simp
  then have "0 < 12 * (real n * (\<Sum>i<n. (real i)\<^sup>2) - (\<Sum>i<n. real i)\<^sup>2)"
    by (simp only: exact_denominator)
  moreover have "0 < 12 * d \<Longrightarrow> 0 < d" for d :: real
    by simp
  ultimately show ?thesis
    by blast
qed

text \<open>The 32-bit product is the product as long as it fits: up to \<open>i = 46340\<close>.\<close>

lemma mul_int32_exact:
  assumes "0 \<le> a" and "a \<le> 46340"
  shows "mul_int32 a a = a * a"
proof -
  have "a * a \<le> 46340 * 46340"
    using assms by (intro mult_mono) simp_all
  then have "a * a < 2 ^ 31"
    by simp
  moreover have "- (2 ^ 31) \<le> a * a"
  proof -
    have "- (2 ^ 31) \<le> (0::int)"
      by simp
    also have "0 \<le> a * a"
      by simp
    finally show ?thesis .
  qed
  ultimately have "a * a < 2 ^ 31" "- (2 ^ 31) \<le> a * a"
    by blast+
  then have "signed_take_bit 31 (a * a) = a * a"
    by (simp add: signed_take_bit_int_eq_self)
  moreover have "mul_int32 a a = signed_take_bit 31 (a * a)"
    by (simp add: mul_int32_def sint_sbintrunc' flip: of_int_mult)
  ultimately show ?thesis
    by simp
qed

lemma mul_int32_46341: "mul_int32 46341 46341 = 46341 * 46341 - 2 ^ 32"
  by (simp add: mul_int32_def)

lemma remove_mean_nth:
  assumes "nat len \<le> length signal" and "i < nat len"
  shows "remove_mean signal len ! i = signal ! i - (\<Sum>i<nat len. signal ! i) / real_of_int len"
  using assms by (simp add: remove_mean_eq nth_append)

lemma remove_mean_sum:
  assumes "1 \<le> len" and "nat len \<le> length signal"
  shows "(\<Sum>i<nat len. remove_mean signal len ! i) = 0"
proof -
  have "(\<Sum>i<nat len. remove_mean signal len ! i)
      = (\<Sum>i<nat len. signal ! i - (\<Sum>i<nat len. signal ! i) / real_of_int len)"
    by (rule sum.cong) (simp_all add: remove_mean_nth [OF assms(2)])
  also have "\<dots> = 0"
    using assms(1) by (simp add: sum_subtractf)
  finally show ?thesis .
qed

lemma detrend_signal_nth:
  assumes "nat len \<le> length signal" and "i < nat len"
  shows "detrend_signal signal len ! i
    = remove_mean signal len ! i
      - (fitted_slope signal len * real i
         + ((\<Sum>i<nat len. remove_mean signal len ! i)
              - fitted_slope signal len * (\<Sum>i<nat len. real i)) / real (nat len))"
proof -
  have "0 \<le> len"
    using assms(2) by simp
  then show ?thesis
    using assms(2)
    by (simp add: detrend_signal_eq [OF assms(1)] regression_sums_eq fitted_slope_def Let_def
        nth_append)
qed

text \<open>
  The statistics of the detrended buffer, for every length: the mean is zero; the slope
  is zero when the slope subtracted is the exact least-squares slope of the mean-free
  data.
\<close>

lemma detrend_signal_stats:
  assumes "1 \<le> len" and "nat len \<le> length signal"
  shows "(\<Sum>i<nat len. detrend_signal signal len ! i) = 0"
    and "real (nat len) * (\<Sum>i<nat len. real i * detrend_signal signal len ! i)
          - (\<Sum>i<nat len. real i) * (\<Sum>i<nat len. detrend_signal signal len ! i)
        = real (nat len) * (\<Sum>i<nat len. real i * remove_mean signal len ! i)
          - fitted_slope signal len
            * (real (nat len) * (\<Sum>i<nat len. (real i)\<^sup>2) - (\<Sum>i<nat len. real i)\<^sup>2)"
proof -
  define n where "n = nat len"
  define y where "y i = remove_mean signal len ! i" for i
  define slope where "slope = fitted_slope signal len"
  define icpt where "icpt = ((\<Sum>i<n. y i) - slope * (\<Sum>i<n. real i)) / real n"
  have n: "0 < n"
    using assms(1) by (simp add: n_def)
  have z: "detrend_signal signal len ! i = y i - (slope * real i + icpt)" if "i < n" for i
    using detrend_signal_nth [OF assms(2), of i] that
    by (simp add: n_def y_def slope_def icpt_def)
  have sz: "(\<Sum>i<n. detrend_signal signal len ! i) = (\<Sum>i<n. y i - (slope * real i + icpt))"
    by (rule sum.cong) (simp_all add: z)
  have sxz: "(\<Sum>i<n. real i * detrend_signal signal len ! i)
      = (\<Sum>i<n. real i * (y i - (slope * real i + icpt)))"
    by (rule sum.cong) (simp_all add: z)
  have sy: "(\<Sum>i<n. y i) = 0"
    using remove_mean_sum [OF assms] by (simp add: n_def y_def)
  show "(\<Sum>i<nat len. detrend_signal signal len ! i) = 0"
    unfolding n_def [symmetric] sz icpt_def by (rule residual_sums(1) [OF n])
  have "real n * (\<Sum>i<n. real i * detrend_signal signal len ! i)
          - (\<Sum>i<n. real i) * (\<Sum>i<n. detrend_signal signal len ! i)
      = (real n * (\<Sum>i<n. real i * y i) - (\<Sum>i<n. real i) * (\<Sum>i<n. y i))
          - slope * (real n * (\<Sum>i<n. (real i)\<^sup>2) - (\<Sum>i<n. real i)\<^sup>2)"
    unfolding sz sxz icpt_def by (rule residual_sums(2) [OF n])
  then show "real (nat len) * (\<Sum>i<nat len. real i * detrend_signal signal len ! i)
          - (\<Sum>i<nat len. real i) * (\<Sum>i<nat len. detrend_signal signal len ! i)
        = real (nat len) * (\<Sum>i<nat len. real i * remove_mean signal len ! i)
          - fitted_slope signal len
            * (real (nat len) * (\<Sum>i<nat len. (real i)\<^sup>2) - (\<Sum>i<nat len. real i)\<^sup>2)"
    by (simp add: sy n_def [symmetric] slope_def [symmetric] y_def [symmetric])
qed

lemma fitted_slope_eq:
  assumes "1 \<le> len" and "nat len \<le> length signal"
  shows "fitted_slope signal len
    = real (nat len) * (\<Sum>i<nat len. real i * remove_mean signal len ! i)
      / (real (nat len) * (\<Sum>i<nat len. real_of_int (mul_int32 (int i) (int i)))
         - (\<Sum>i<nat len. real i)\<^sup>2)"
  using assms(1) remove_mean_sum [OF assms]
  by (simp add: fitted_slope_def regression_sums_eq power2_eq_square)

lemma regression_denominator_eq:
  assumes "1 \<le> len"
  shows "regression_denominator signal len
    = real (nat len) * (\<Sum>i<nat len. real_of_int (mul_int32 (int i) (int i)))
      - (\<Sum>i<nat len. real i)\<^sup>2"
  using assms by (simp add: regression_denominator_def regression_sums_eq power2_eq_square)

lemma sum_mul_int32_exact:
  assumes "n \<le> 46341"
  shows "(\<Sum>i<n. real_of_int (mul_int32 (int i) (int i))) = (\<Sum>i<n. (real i)\<^sup>2)"
proof (rule sum.cong)
  fix i assume "i \<in> {..<n}"
  then have "int i \<le> 46340"
    using assms by simp
  then have "mul_int32 (int i) (int i) = int i * int i"
    by (intro mul_int32_exact) simp_all
  then show "real_of_int (mul_int32 (int i) (int i)) = (real i)\<^sup>2"
    by (simp add: power2_eq_square)
qed simp

text \<open>
  Within the range of the 32-bit product, \<open>2 \<le> N \<le> 46341\<close>: the denominator is
  positive, the mean of the detrended samples is zero and so is their least-squares
  slope against the index.
\<close>

lemma detrend_signal_exact:
  assumes "2 \<le> len" and "len \<le> 46341" and "len \<le> int (length signal)"
  shows "0 < regression_denominator signal len
    \<and> mean_of (detrend_signal signal len) (nat len) = 0
    \<and> ls_slope (detrend_signal signal len) (nat len) = 0"
proof -
  define n where "n = nat len"
  define D where "D = real n * (\<Sum>i<n. (real i)\<^sup>2) - (\<Sum>i<n. real i)\<^sup>2"
  have len: "1 \<le> len" "nat len \<le> length signal" "2 \<le> n" "n \<le> 46341"
    using assms by (simp_all add: n_def)
  have D: "0 < D"
    unfolding D_def using len(3) by (rule exact_denominator_pos)
  have den: "regression_denominator signal len = D"
    using len(4)
    by (simp add: regression_denominator_eq [OF len(1)] sum_mul_int32_exact n_def [symmetric]
        D_def)
  have slope: "fitted_slope signal len = real n * (\<Sum>i<n. real i * remove_mean signal len ! i) / D"
    using len(4)
    by (simp add: fitted_slope_eq [OF len(1,2)] sum_mul_int32_exact n_def [symmetric] D_def)
  have "real n * (\<Sum>i<n. real i * detrend_signal signal len ! i)
          - (\<Sum>i<n. real i) * (\<Sum>i<n. detrend_signal signal len ! i)
      = real n * (\<Sum>i<n. real i * remove_mean signal len ! i) - fitted_slope signal len * D"
    using detrend_signal_stats(2) [OF len(1,2)] by (simp only: n_def D_def)
  also have "\<dots> = 0"
    using D by (simp add: slope)
  finally have "ls_slope (detrend_signal signal len) n = 0"
    by (simp add: ls_slope_def)
  moreover have "mean_of (detrend_signal signal len) n = 0"
    using detrend_signal_stats(1) [OF len(1,2)] by (simp add: mean_of_def n_def)
  ultimately show ?thesis
    using D den by (simp add: n_def)
qed

text \<open>
  The ramp \<open>0, 1, \<dots>, 46341\<close>, the shortest buffer on which \<^verbatim>\<open>i * i\<close> leaves the
  32-bit range: the sum of squares the code holds, the denominator it divides by
  (positive, but too small), and the slope it subtracts.
\<close>

lemma ramp_regression:
  fixes D :: real
  defines "D \<equiv> 46342 * (\<Sum>i<46342. (real i)\<^sup>2) - (\<Sum>i<46342. real i)\<^sup>2"
  shows "(\<Sum>i<46342. real_of_int (mul_int32 (int i) (int i))) = (\<Sum>i<46342. (real i)\<^sup>2) - 2 ^ 32"
    and "0 < D - 46342 * 2 ^ 32"
    and "46342 * (\<Sum>i<46342. real i * remove_mean (map real [0..<46342]) 46342 ! i) = D"
    and "fitted_slope (map real [0..<46342]) 46342 = D / (D - 46342 * 2 ^ 32)"
    and "\<And>i. i < 46342 \<Longrightarrow>
          remove_mean (map real [0..<46342]) 46342 ! i = real i - (\<Sum>i<46342. real i) / 46342"
proof -
  define n :: nat where "n = 46342"
  define sig where "sig = map real [0..<n]"
  define Sx where "Sx = (\<Sum>i<n. real i)"
  define S2 where "S2 = (\<Sum>i<n. (real i)\<^sup>2)"
  define E where "E = real n * S2 - Sx\<^sup>2"
  define Ec where "Ec = E - real n * 2 ^ 32"
  have len: "(1::int) \<le> 46342" "nat 46342 \<le> length sig" and n: "nat 46342 = n" "n = Suc 46341"
    by (simp_all add: sig_def n_def)
  have E12: "12 * E = (real n)\<^sup>2 * (real n - 1) * (real n + 1)"
    unfolding E_def S2_def Sx_def by (rule exact_denominator)
  have Ec: "0 < Ec"
    using E12 by (simp add: Ec_def n_def)
  have c: "(\<Sum>i<n. real_of_int (mul_int32 (int i) (int i))) = S2 - 2 ^ 32"
  proof -
    have "(\<Sum>i<n. real_of_int (mul_int32 (int i) (int i)))
        = (\<Sum>i<46341. real_of_int (mul_int32 (int i) (int i)))
          + real_of_int (mul_int32 46341 46341)"
      by (simp only: n(2) sum.lessThan_Suc) simp
    also have "\<dots> = (\<Sum>i<46341. (real i)\<^sup>2) + (46341\<^sup>2 - 2 ^ 32)"
      by (simp only: sum_mul_int32_exact [OF order_refl] mul_int32_46341) simp
    also have "\<dots> = S2 - 2 ^ 32"
      by (simp only: S2_def n(2) sum.lessThan_Suc) simp
    finally show ?thesis .
  qed
  have total: "(\<Sum>i<n. sig ! i) = Sx"
    unfolding Sx_def by (rule sum.cong) (simp_all add: sig_def)
  have y: "remove_mean sig 46342 ! i = real i - Sx / real n" if "i < n" for i
  proof -
    have "i < nat 46342"
      using that by (simp add: n_def)
    from remove_mean_nth [OF len(2) this]
    have "remove_mean sig 46342 ! i = sig ! i - (\<Sum>i<n. sig ! i) / real_of_int 46342"
      by (simp only: n(1))
    moreover have "sig ! i = real i"
      using that by (simp add: sig_def)
    moreover have "real_of_int 46342 = real n"
      by (simp add: n_def)
    ultimately show ?thesis
      by (simp only: total)
  qed
  have "(\<Sum>i<n. real i * remove_mean sig 46342 ! i) = (\<Sum>i<n. (real i)\<^sup>2 - Sx / real n * real i)"
    by (rule sum.cong) (simp_all add: y algebra_simps power2_eq_square)
  also have "\<dots> = S2 - Sx / real n * Sx"
    by (simp add: sum_subtractf sum_distrib_left S2_def Sx_def)
  finally have "real n * (\<Sum>i<n. real i * remove_mean sig 46342 ! i)
      = real n * (S2 - Sx / real n * Sx)"
    by simp
  also have "\<dots> = E"
    by (simp add: E_def n_def algebra_simps power2_eq_square)
  finally have sxy: "real n * (\<Sum>i<n. real i * remove_mean sig 46342 ! i) = E" .
  have "fitted_slope sig 46342
      = real n * (\<Sum>i<n. real i * remove_mean sig 46342 ! i)
        / (real n * (\<Sum>i<n. real_of_int (mul_int32 (int i) (int i))) - Sx\<^sup>2)"
    using fitted_slope_eq [OF len] by (simp only: n(1) Sx_def)
  also have "\<dots> = E / Ec"
    by (simp only: sxy c) (simp add: Ec_def E_def algebra_simps)
  finally have slope: "fitted_slope sig 46342 = E / Ec" .
  have DE: "D = E"
    by (simp add: D_def E_def S2_def Sx_def n_def)
  show "(\<Sum>i<46342. real_of_int (mul_int32 (int i) (int i))) = (\<Sum>i<46342. (real i)\<^sup>2) - 2 ^ 32"
    using c by (simp add: S2_def n_def)
  show "0 < D - 46342 * 2 ^ 32"
    using Ec by (simp add: DE Ec_def n_def)
  show "46342 * (\<Sum>i<46342. real i * remove_mean (map real [0..<46342]) 46342 ! i) = D"
    using sxy by (simp add: DE sig_def n_def)
  show "fitted_slope (map real [0..<46342]) 46342 = D / (D - 46342 * 2 ^ 32)"
    using slope by (simp add: DE Ec_def sig_def n_def)
  show "remove_mean (map real [0..<46342]) 46342 ! i = real i - (\<Sum>i<46342. real i) / 46342"
    if "i < 46342" for i
    using y [of i] that by (simp add: sig_def Sx_def n_def)
qed

text \<open>
  Claim C6. For every buffer of length \<open>N \<ge> 2\<close> the denominator
  \<open>N * \<Sum>x\<^sup>2 - (\<Sum>x)\<^sup>2\<close> of the slope is nonzero, and \<open>detrend_signal\<close> leaves a buffer
  whose mean is 0 and whose least-squares slope against the index is 0 (in exact real
  arithmetic). This is \<open>detrend_signal_exact\<close> up to \<open>N = 46341\<close>. From \<open>N = 46342\<close> on
  the code does not do it: \<^verbatim>\<open>sum_x2 += i * i\<close> is an \<^verbatim>\<open>int\<close> product, which leaves the
  32-bit range at \<open>i = 46341\<close>. On the ramp \<open>0, 1, \<dots>, 46341\<close> (46342 samples, a pure
  linear trend) the sum of squares the code holds is too small by \<open>2 ^ 32\<close>, the slope
  it subtracts is not the least-squares slope, and the detrended buffer, whose mean is
  still 0, keeps a slope that is not zero.
\<close>

theorem detrend_signal_overflow:
  "(\<Sum>i<46342. real_of_int (mul_int32 (int i) (int i))) = (\<Sum>i<46342. (real i)\<^sup>2) - 2 ^ 32
   \<and> mean_of (detrend_signal (map real [0..<46342]) 46342) 46342 = 0
   \<and> ls_slope (detrend_signal (map real [0..<46342]) 46342) 46342 \<noteq> 0"
proof -
  define n :: nat where "n = 46342"
  define sig where "sig = map real [0..<n]"
  define Sx where "Sx = (\<Sum>i<n. real i)"
  define S2 where "S2 = (\<Sum>i<n. (real i)\<^sup>2)"
  define D where "D = real n * S2 - Sx\<^sup>2"
  define Dc where "Dc = D - real n * 2 ^ 32"
  have len: "(1::int) \<le> 46342" "nat 46342 \<le> length sig" and n: "nat 46342 = n" "n = Suc 46341"
    by (simp_all add: sig_def n_def)
  have c: "(\<Sum>i<n. real_of_int (mul_int32 (int i) (int i))) = S2 - 2 ^ 32"
    using ramp_regression(1) by (simp add: S2_def n_def)
  have Dc: "0 < Dc"
    using ramp_regression(2) by (simp add: Dc_def D_def S2_def Sx_def n_def)
  then have D: "0 < D"
    by (simp add: Dc_def n_def)
  have sxy: "real n * (\<Sum>i<n. real i * remove_mean sig 46342 ! i) = D"
    using ramp_regression(3) by (simp add: D_def S2_def Sx_def sig_def n_def)
  have slope: "fitted_slope sig 46342 = D / Dc"
    using ramp_regression(4) by (simp add: Dc_def D_def S2_def Sx_def sig_def n_def)
  have "real n * (\<Sum>i<n. real i * detrend_signal sig 46342 ! i)
        - Sx * (\<Sum>i<n. detrend_signal sig 46342 ! i)
      = real n * (\<Sum>i<n. real i * remove_mean sig 46342 ! i) - fitted_slope sig 46342 * D"
    using detrend_signal_stats(2) [OF len] by (simp only: n(1) Sx_def S2_def D_def)
  also have "\<dots> = D * (1 - D / Dc)"
    by (simp add: sxy slope algebra_simps)
  finally have "ls_slope (detrend_signal sig 46342) n = D * (1 - D / Dc) / D"
    by (simp only: ls_slope_def Sx_def S2_def D_def)
  also have "\<dots> = 1 - D / Dc"
    using D by simp
  also have "\<dots> \<noteq> 0"
    using Dc by (simp add: Dc_def n_def)
  finally have slope_left: "ls_slope (detrend_signal sig 46342) n \<noteq> 0" .
  have "(\<Sum>i<n. detrend_signal sig 46342 ! i) = 0"
    using detrend_signal_stats(1) [OF len] by (simp only: n(1))
  then have "mean_of (detrend_signal sig 46342) n = 0"
    by (simp add: mean_of_def)
  then show ?thesis
    using c slope_left by (simp add: S2_def sig_def n_def)
qed

section \<open>The conditioning pipeline\<close>

lemma detrend_signal_length: "length (detrend_signal signal len) = length signal"
proof -
  have "length (remove_mean signal len) = length signal"
    unfolding remove_mean_def Let_def by (rule for_loop_length) simp
  moreover have "length (detrend_signal signal len) = length (remove_mean signal len)"
    unfolding detrend_signal_def Let_def split_beta by (rule for_loop_length) simp
  ultimately show ?thesis
    by simp
qed

lemma detrend_signal_drop:
  assumes "nat len \<le> length signal"
  shows "drop (nat len) (detrend_signal signal len) = drop (nat len) signal"
  using assms
  by (simp add: detrend_signal_eq [OF assms] remove_mean_eq [OF assms] Let_def split_beta)

lemma copy_loop:
  assumes "n \<le> length src" and "n \<le> length dst"
  shows "for_loop 0 n (\<lambda>i dst. dst[i := src ! i]) dst = take n src @ drop n dst"
proof -
  have "for_loop 0 n (\<lambda>i dst. dst[i := src ! i]) dst = map (\<lambda>i. src ! i) [0..<n] @ drop n dst"
    using pointwise_loop [OF _ assms(2), of 0 "\<lambda>i v. src ! i"] by simp
  moreover have "map (\<lambda>i. src ! i) [0..<n] = take n src"
    using assms(1) by (intro nth_equalityI) simp_all
  ultimately show ?thesis
    by simp
qed

lemma normalize_loop:
  assumes "n \<le> length out"
  shows "for_loop 0 n (\<lambda>i out. out[i := (out ! i - min_val) / rng]) out
    = map (\<lambda>v. (v - min_val) / rng) (take n out) @ drop n out"
proof -
  have "for_loop 0 n (\<lambda>i out. out[i := (out ! i - min_val) / rng]) out
      = map (\<lambda>i. (out ! i - min_val) / rng) [0..<n] @ drop n out"
    using pointwise_loop [OF _ assms, of 0 "\<lambda>i v. (v - min_val) / rng"] by simp
  moreover have "map (\<lambda>i. (out ! i - min_val) / rng) [0..<n]
      = map (\<lambda>v. (v - min_val) / rng) (take n out)"
    using assms by (intro nth_equalityI) simp_all
  ultimately show ?thesis
    by simp
qed

lemma process_steps:
  assumes "0 < len" and "len \<le> int (length inp)" and "len \<le> int (length out)"
  defines "n \<equiv> nat len"
  defines "detrended \<equiv> detrend_signal (take n inp @ drop n out) len"
  shows "band_valid sample_rate 0.8 3 \<Longrightarrow>
      process_rppg_signals PI (Some inp) (Some out) len sample_rate
        = Inr (1, Some (normalize_spec
                          (map (cascade_spec PI sample_rate 0.8 3 (take n detrended)) [0..<n])
                        @ drop n out))"
    and "\<not> band_valid sample_rate 0.8 3 \<Longrightarrow>
      process_rppg_signals PI (Some inp) (Some out) len sample_rate = Inr (0, Some detrended)"
proof -
  define temp where "temp = for_loop 0 n (\<lambda>i temp. temp[i := detrended ! i]) (replicate n 0)"
  have n: "0 < n" "n \<le> length inp" "n \<le> length out"
    using assms(1-3) by (simp_all add: n_def)
  have copied: "for_loop 0 n (\<lambda>i out. out[i := inp ! i]) out = take n inp @ drop n out"
    by (rule copy_loop [OF n(2,3)])
  have size: "length detrended = length out"
    using n by (simp add: detrended_def detrend_signal_length)
  have tail: "drop n detrended = drop n out"
    using n detrend_signal_drop [of len "take n inp @ drop n out"]
    by (simp add: detrended_def n_def)
  have temp: "temp = take n detrended"
    using copy_loop [of n detrended "replicate n 0"] n(3) size by (simp add: temp_def)
  have unfold: "process_rppg_signals PI (Some inp) (Some out) len sample_rate
      = (case bandpass_filter PI (Some temp) (Some detrended) len sample_rate 0.8 3 of
           Inl e \<Rightarrow> Inl e
         | Inr (ok, output) \<Rightarrow>
             if ok = 0 then Inr (0, output)
             else Inr (1, map_option
               (\<lambda>out.
                  let max_val = Max (set (take n out));
                      min_val = Min (set (take n out));
                      rng = max_val - min_val
                  in if rng > 0
                     then for_loop 0 n (\<lambda>i out. out[i := (out ! i - min_val) / rng]) out
                     else out)
               output))"
    using assms(1-3)
    by (simp add: process_rppg_signals_def Let_def copied n_def [symmetric]
        detrended_def [symmetric] temp_def [symmetric])
  show "process_rppg_signals PI (Some inp) (Some out) len sample_rate = Inr (0, Some detrended)"
    if "\<not> band_valid sample_rate 0.8 3"
    using that assms(1) by (simp add: unfold bandpass_filter_def band_valid_def Let_def)
  show "process_rppg_signals PI (Some inp) (Some out) len sample_rate
        = Inr (1, Some (normalize_spec
                          (map (cascade_spec PI sample_rate 0.8 3 (take n detrended)) [0..<n])
                        @ drop n out))"
    if valid: "band_valid sample_rate 0.8 3"
  proof -
    define F where "F = map (cascade_spec PI sample_rate 0.8 3 (take n detrended)) [0..<n]"
    have "len \<le> int (length temp)" "len \<le> int (length detrended)"
      using n(3) size by (simp_all add: temp n_def)
    from bandpass_filter_success [OF assms(1) valid this, of PI]
    have filtered: "bandpass_filter PI (Some temp) (Some detrended) len sample_rate 0.8 3
        = Inr (1, Some (F @ drop n out))"
      by (simp add: F_def temp tail n_def [symmetric])
    have F: "length F = n" "take n (F @ drop n out) = F" "drop n (F @ drop n out) = drop n out"
      by (simp_all add: F_def)
    have fits: "n \<le> length (F @ drop n out)"
      by (simp add: F(1))
    show ?thesis
      unfolding F_def [symmetric] unfold filtered
      by (simp add: Let_def F(1) normalize_loop [OF fits] normalize_spec_def)
  qed
qed

lemma normalize_spec_range:
  assumes "Min (set F) < Max (set F)"
  shows "normalize_spec F = map (\<lambda>v. (v - Min (set F)) / (Max (set F) - Min (set F))) F"
    and "\<forall>v \<in> set (normalize_spec F). 0 \<le> v \<and> v \<le> 1"
proof -
  show eq: "normalize_spec F = map (\<lambda>v. (v - Min (set F)) / (Max (set F) - Min (set F))) F"
    using assms by (simp add: normalize_spec_def Let_def)
  have "0 \<le> (v - Min (set F)) / (Max (set F) - Min (set F))
      \<and> (v - Min (set F)) / (Max (set F) - Min (set F)) \<le> 1" if "v \<in> set F" for v
  proof -
    have "Min (set F) \<le> v" "v \<le> Max (set F)"
      using that by simp_all
    then show ?thesis
      using assms by (simp add: divide_le_eq)
  qed
  then show "\<forall>v \<in> set (normalize_spec F). 0 \<le> v \<and> v \<le> 1"
    unfolding eq by auto
qed

text \<open>
  The return code: 1 exactly when input and output are not null, \<open>length > 0\<close> and the
  band [0.8, 3.0] Hz passes the validation of the band-pass for the sample rate;
  \<open>detrend_signal\<close> has no failure path. (The buffers hold at least \<open>length\<close> samples.)
\<close>

lemma process_rppg_signals_success_iff:
  assumes "case input of None \<Rightarrow> True | Some inp \<Rightarrow> len \<le> int (length inp)"
    and "case output of None \<Rightarrow> True | Some out \<Rightarrow> len \<le> int (length out)"
  shows "(\<exists>out'. process_rppg_signals PI input output len sample_rate = Inr (1, out'))
        \<longleftrightarrow> (input \<noteq> None \<and> output \<noteq> None \<and> 0 < len
              \<and> \<not> (0.8 / (sample_rate / 2) \<le> 0 \<or> 3 / (sample_rate / 2) \<ge> 1
                    \<or> 0.8 / (sample_rate / 2) \<ge> 3 / (sample_rate / 2)))"
proof -
  have valid: "band_valid sample_rate 0.8 3
      \<longleftrightarrow> \<not> (0.8 / (sample_rate / 2) \<le> 0 \<or> 3 / (sample_rate / 2) \<ge> 1
            \<or> 0.8 / (sample_rate / 2) \<ge> 3 / (sample_rate / 2))"
    by (simp add: band_valid_def)
  have guard: "process_rppg_signals PI input output len sample_rate = Inr (0, output)"
    if "input = None \<or> output = None \<or> len \<le> 0"
    using that by (auto simp add: process_rppg_signals_def split: option.splits)
  have "(\<exists>out'. process_rppg_signals PI input output len sample_rate = Inr (1, out'))
        \<longleftrightarrow> (input \<noteq> None \<and> output \<noteq> None \<and> 0 < len \<and> band_valid sample_rate 0.8 3)"
  proof (cases "input = None \<or> output = None \<or> len \<le> 0")
    case True
    then show ?thesis
      using guard by auto
  next
    case False
    then obtain inp out where io: "input = Some inp" "output = Some out" and len: "0 < len"
      by auto
    have fits: "len \<le> int (length inp)" "len \<le> int (length out)"
      using assms io by simp_all
    show ?thesis
      using process_steps [OF len fits, of sample_rate PI] io len
      by (cases "band_valid sample_rate 0.8 3") simp_all
  qed
  then show ?thesis
    unfolding valid [symmetric] .
qed

lemma normalize_spec_flat:
  assumes "Min (set F) = Max (set F)"
  shows "normalize_spec F = F"
  using assms by (simp add: normalize_spec_def Let_def)

section \<open>The conditioning pipeline and the detrending of the specification\<close>

text \<open>
  Up to \<open>length = 46341\<close> the 32-bit products \<^verbatim>\<open>i * i\<close> are exact, and the first
  \<open>length\<close> samples \<open>detrend_signal\<close> leaves are the samples detrended as the
  specification defines it.
\<close>

lemma detrend_spec_length: "length (detrend_spec buffer) = length buffer"
  by (simp add: detrend_spec_def Let_def)

lemma detrend_signal_spec:
  assumes "1 \<le> len" and "len \<le> 46341" and "nat len \<le> length signal"
  shows "take (nat len) (detrend_signal signal len) = detrend_spec (take (nat len) signal)"
proof (rule nth_equalityI)
  define n where "n = nat len"
  define mean where "mean = (\<Sum>i<n. signal ! i) / real n"
  define y where "y = map (\<lambda>v. v - mean) (take n signal)"
  have n: "0 < n" "n \<le> length signal" "n \<le> 46341" "real_of_int len = real n"
    using assms by (simp_all add: n_def)
  show "length (take (nat len) (detrend_signal signal len))
      = length (detrend_spec (take (nat len) signal))"
    using assms(3) by (simp add: detrend_signal_length detrend_spec_length)
  fix i
  assume "i < length (take (nat len) (detrend_signal signal len))"
  then have i: "i < n"
    by (simp add: n_def)
  have total: "(\<Sum>i<n. take n signal ! i) = (\<Sum>i<n. signal ! i)"
    by (rule sum.cong) simp_all
  have y: "remove_mean signal len ! j = y ! j" if "j < n" for j
    using that n(2) remove_mean_nth [OF assms(3), of j]
    by (simp add: y_def mean_def n_def [symmetric] n(4))
  have sy: "(\<Sum>i<n. remove_mean signal len ! i) = (\<Sum>i<n. y ! i)"
    by (rule sum.cong) (simp_all add: y)
  have sxy: "(\<Sum>i<n. real i * remove_mean signal len ! i) = (\<Sum>i<n. real i * y ! i)"
    by (rule sum.cong) (simp_all add: y)
  have sq: "(\<Sum>i<n. real_of_int (mul_int32 (int i) (int i))) = (\<Sum>i<n. (real i)\<^sup>2)"
    by (rule sum_mul_int32_exact [OF n(3)])
  have slope: "fitted_slope signal len
      = (real n * (\<Sum>i<n. real i * y ! i) - (\<Sum>i<n. real i) * (\<Sum>i<n. y ! i))
        / (real n * (\<Sum>i<n. (real i)\<^sup>2) - (\<Sum>i<n. real i)\<^sup>2)"
    by (simp add: fitted_slope_def regression_sums_eq n_def [symmetric] n(4) sy sxy sq
        power2_eq_square)
  have "take (nat len) (detrend_signal signal len) ! i = detrend_signal signal len ! i"
    using i by (simp add: n_def)
  also have "\<dots> = y ! i - (fitted_slope signal len * real i
         + ((\<Sum>i<n. y ! i) - fitted_slope signal len * (\<Sum>i<n. real i)) / real n)"
    using detrend_signal_nth [OF assms(3), of i] i by (simp add: n_def [symmetric] sy y)
  also have "\<dots> = detrend_spec (take (nat len) signal) ! i"
    using i n(2)
    by (simp add: detrend_spec_def Let_def n_def [symmetric] total slope
        mean_def [symmetric] y_def [symmetric])
  finally show "take (nat len) (detrend_signal signal len) ! i
      = detrend_spec (take (nat len) signal) ! i" .
qed

text \<open>
  So, for \<open>2 \<le> length \<le> 46341\<close> and a valid band, the first \<open>length\<close> output samples
  of \<open>process_rppg_signals\<close> are the pipeline of the specification: the input copied,
  detrended, filtered by the cascade for [0.8, 3.0] Hz and min-max normalised
  (\<open>normalize_spec_range\<close>: into [0, 1] when the maximum exceeds the minimum;
  \<open>normalize_spec_flat\<close>: left as filtered when they coincide). At \<open>length = 1\<close> the
  denominator of the slope is zero, which the specification excludes.
\<close>

lemma process_rppg_signals_exact:
  assumes "2 \<le> len" and "len \<le> 46341"
    and "len \<le> int (length inp)" and "len \<le> int (length out)"
    and "band_valid sample_rate 0.8 3"
  shows "process_rppg_signals PI (Some inp) (Some out) len sample_rate
    = Inr (1, Some (normalize_spec
                      (map (cascade_spec PI sample_rate 0.8 3 (detrend_spec (take (nat len) inp)))
                         [0..<nat len])
                    @ drop (nat len) out))"
proof -
  have len: "0 < len" "1 \<le> len"
    using assms(1) by simp_all
  have fits: "nat len \<le> length (take (nat len) inp @ drop (nat len) out)"
    using assms(3,4) by simp
  have "take (nat len) (detrend_signal (take (nat len) inp @ drop (nat len) out) len)
      = detrend_spec (take (nat len) (take (nat len) inp @ drop (nat len) out))"
    by (rule detrend_signal_spec [OF len(2) assms(2) fits])
  also have "take (nat len) (take (nat len) inp @ drop (nat len) out) = take (nat len) inp"
    using assms(3) by simp
  finally show ?thesis
    using process_steps(1) [OF len(1) assms(3,4,5), of PI] by simp
qed

text \<open>
  An input with a trend: \<open>0, 1, 5\<close> has mean 2 and slope \<open>5 / 2\<close>.
\<close>

lemma process_rppg_signals_exact_example:
  "detrend_spec [0, 1, 5] = [1 / 2, - 1, 1 / 2]
   \<and> map (cascade_spec 3 30 0.8 3 [1 / 2, - 1, 1 / 2]) [0..<3] = [1 / 2, 10 / 29, 5015 / 13456]
   \<and> process_rppg_signals 3 (Some [0, 1, 5]) (Some [7, 7, 7, 9]) 3 30
       = Inr (1, Some [1, 0, 125 / 696, 9])"
proof -
  have detrended: "detrend_spec [0, 1, 5] = [1 / 2, - 1, 1 / 2]"
    by (simp add: detrend_spec_def Let_def numeral_3_eq_3 upt_rec)
  have filtered: "map (cascade_spec 3 30 0.8 3 [1 / 2, - 1, 1 / 2]) [0..<3]
      = [1 / 2, 10 / 29, 5015 / 13456]"
    by (simp add: cascade_spec_def Let_def upt_rec numeral_3_eq_3)
  have valid: "band_valid 30 0.8 3"
    by (simp add: band_valid_def)
  have "process_rppg_signals 3 (Some [0, 1, 5]) (Some [7, 7, 7, 9]) 3 30
      = Inr (1, Some (normalize_spec
                        (map (cascade_spec 3 30 0.8 3 (detrend_spec (take (nat 3) [0, 1, 5])))
                           [0..<nat 3])
                      @ drop (nat 3) [7, 7, 7, 9]))"
    by (rule process_rppg_signals_exact [OF _ _ _ _ valid]) simp_all
  moreover have "take (nat 3) [0, 1, 5 :: real] = [0, 1, 5]" "nat 3 = 3"
    by simp_all
  ultimately have "process_rppg_signals 3 (Some [0, 1, 5]) (Some [7, 7, 7, 9]) 3 30
      = Inr (1, Some (normalize_spec [1 / 2, 10 / 29, 5015 / 13456] @ drop 3 [7, 7, 7, 9]))"
    by (simp only: detrended filtered)
  then have "process_rppg_signals 3 (Some [0, 1, 5]) (Some [7, 7, 7, 9]) 3 30
      = Inr (1, Some [1, 0, 125 / 696, 9])"
    by (simp add: normalize_spec_def Let_def)
  then show ?thesis
    using detrended filtered by simp
qed

text \<open>
  The ramp is a pure trend: the detrending of the specification leaves zeros, the
  cascade of zeros is zero, and so is its normalisation. A window whose first filtered
  sample is not zero is not normalised to zeros.
\<close>

lemma detrend_spec_ramp:
  assumes "2 \<le> n"
  shows "detrend_spec (map real [0..<n]) = replicate n 0"
proof -
  define Sx where "Sx = (\<Sum>i<n. real i)"
  define S2 where "S2 = (\<Sum>i<n. (real i)\<^sup>2)"
  define y where "y = map (\<lambda>v. v - Sx / real n) (map real [0..<n])"
  have n: "real n \<noteq> 0"
    using assms by simp
  have D: "0 < real n * S2 - Sx\<^sup>2"
    unfolding S2_def Sx_def using assms by (rule exact_denominator_pos)
  have total: "(\<Sum>i<n. map real [0..<n] ! i) = Sx"
    unfolding Sx_def by (rule sum.cong) simp_all
  have y: "y ! i = real i - Sx / real n" if "i < n" for i
    using that by (simp add: y_def)
  have "(\<Sum>i<n. y ! i) = (\<Sum>i<n. real i - Sx / real n)"
    by (rule sum.cong) (simp_all add: y)
  also have "\<dots> = 0"
    using n by (simp add: sum_subtractf Sx_def)
  finally have sy: "(\<Sum>i<n. y ! i) = 0" .
  have "(\<Sum>i<n. real i * y ! i) = (\<Sum>i<n. (real i)\<^sup>2 - Sx / real n * real i)"
    by (rule sum.cong) (simp_all add: y algebra_simps power2_eq_square)
  also have "\<dots> = S2 - Sx / real n * Sx"
    by (simp add: sum_subtractf sum_distrib_left S2_def Sx_def)
  finally have "real n * (\<Sum>i<n. real i * y ! i) = real n * (S2 - Sx / real n * Sx)"
    by simp
  also have "\<dots> = real n * S2 - Sx\<^sup>2"
    using n by (simp add: algebra_simps power2_eq_square)
  finally have sxy: "real n * (\<Sum>i<n. real i * y ! i) = real n * S2 - Sx\<^sup>2" .
  have len: "length (map real [0..<n]) = n"
    by simp
  have "detrend_spec (map real [0..<n])
      = map (\<lambda>i. y ! i
              - ((real n * (\<Sum>i<n. real i * y ! i) - Sx * (\<Sum>i<n. y ! i)) / (real n * S2 - Sx\<^sup>2)
                   * real i
                 + ((\<Sum>i<n. y ! i)
                    - (real n * (\<Sum>i<n. real i * y ! i) - Sx * (\<Sum>i<n. y ! i))
                        / (real n * S2 - Sx\<^sup>2) * Sx) / real n))
          [0..<n]"
    unfolding detrend_spec_def Let_def len total y_def Sx_def S2_def by (rule refl)
  also have "\<dots> = map (\<lambda>i. y ! i - (real i - Sx / real n)) [0..<n]"
    using D by (simp add: sy sxy)
  also have "\<dots> = replicate n 0"
    by (rule nth_equalityI) (simp_all add: y)
  finally show ?thesis .
qed

lemma cascade_highpass_zero: "cascade_highpass a (replicate n 0) i = 0" if "i < n"
  using that by (induction i) simp_all

lemma cascade_lowpass_zero: "cascade_lowpass a t i = 0" if "\<And>j. j \<le> i \<Longrightarrow> t j = 0"
  using that by (induction i) simp_all

lemma cascade_spec_zero:
  "map (cascade_spec PI sample_rate low_cutoff high_cutoff (replicate n 0)) [0..<n] = replicate n 0"
  by (rule nth_equalityI)
    (simp_all add: cascade_spec_def Let_def cascade_lowpass_zero cascade_highpass_zero)

lemma cascade_spec_first: "cascade_spec PI sample_rate low_cutoff high_cutoff x 0 = x ! 0"
  by (simp add: cascade_spec_def Let_def)

lemma normalize_spec_zero:
  assumes "0 < n"
  shows "normalize_spec (replicate n 0) = replicate n 0"
  using assms by (simp add: normalize_spec_def Let_def)

lemma normalize_spec_nonzero:
  assumes "F \<noteq> []" and "F ! 0 \<noteq> 0"
  shows "normalize_spec F \<noteq> replicate (length F) 0"
proof (cases "Min (set F) < Max (set F)")
  case True
  have "Max (set F) \<in> set F"
    using assms(1) by (intro Max_in) simp_all
  then have "(Max (set F) - Min (set F)) / (Max (set F) - Min (set F)) \<in> set (normalize_spec F)"
    unfolding normalize_spec_range(1) [OF True] by (simp add: image_iff) blast
  then have "1 \<in> set (normalize_spec F)"
    using True by simp
  then show ?thesis
    by auto
next
  case False
  then have "normalize_spec F = F"
    by (simp add: normalize_spec_def Let_def)
  moreover have "F ! 0 \<noteq> replicate (length F) 0 ! 0"
    using assms by simp
  ultimately show ?thesis
    by metis
qed

text \<open>
  What \<open>detrend_signal\<close> leaves of the ramp of 46342 samples: the slope it subtracts is
  greater than 1, and the first sample is not zero.
\<close>

lemma ramp_first_sample: "detrend_signal (map real [0..<46342]) 46342 ! 0 \<noteq> 0"
proof -
  define D :: real where "D = 46342 * (\<Sum>i<46342. (real i)\<^sup>2) - (\<Sum>i<46342. real i)\<^sup>2"
  define Sx :: real where "Sx = (\<Sum>i<46342. real i)"
  define s where "s = fitted_slope (map real [0..<46342]) 46342"
  note ramp = ramp_regression [folded D_def Sx_def s_def]
  have len: "(1::int) \<le> 46342" "nat 46342 \<le> length (map real [0..<46342])"
    by simp_all
  have "2 * Sx = real 46342 * (real 46342 - 1)"
    unfolding Sx_def by (rule sum_index)
  then have Sx: "0 < Sx"
    by simp
  have "s - 1 = 46342 * 2 ^ 32 / (D - 46342 * 2 ^ 32)"
    using ramp(2) by (simp add: ramp(4) field_simps)
  also have "\<dots> > 0"
    using ramp(2) by simp
  finally have s: "0 < s - 1" .
  have "detrend_signal (map real [0..<46342]) 46342 ! 0
      = (0 - Sx / 46342) - (s * 0 + (0 - s * Sx) / 46342)"
    using detrend_signal_nth [OF len(2), of 0] remove_mean_sum [OF len] ramp(5) [of 0]
    by (simp add: s_def Sx_def)
  also have "\<dots> = (s - 1) * Sx / 46342"
    by (simp add: algebra_simps diff_divide_distrib)
  also have "\<dots> \<noteq> 0"
    using s Sx by simp
  finally show ?thesis .
qed

text \<open>
  Claim C3. \<open>process_rppg_signals\<close> returns 1 exactly when input and output are not
  null, \<open>length > 0\<close> and the band [0.8, 3.0] Hz passes the validation of the band-pass
  for the sample rate, and detrending cannot make it fail
  (\<open>process_rppg_signals_success_iff\<close>). On success the first \<open>length\<close> output samples
  are to be the input copied, detrended, filtered by the cascade for [0.8, 3.0] Hz and
  min-max normalised. For \<open>2 \<le> length \<le> 46341\<close> they are
  (\<open>process_rppg_signals_exact\<close>). From \<open>length = 46342\<close> on the code does not do it,
  by the defect of the detrender: the \<^verbatim>\<open>int\<close> product \<^verbatim>\<open>i * i\<close> in \<open>detrend_signal\<close>
  leaves the 32-bit range and the line subtracted is not the least-squares line. On the
  ramp \<open>0, 1, \<dots>, 46341\<close> at 30 Hz, with a zeroed output buffer, the pipeline of the
  specification gives 46342 zeros, since the ramp is nothing but trend; the code returns
  1 with an output that is not the zeros, whatever the value of the constant \<open>PI\<close>.
\<close>

theorem process_rppg_signals_overflow:
  "(\<exists>res. process_rppg_signals PI (Some (map real [0..<46342])) (Some (replicate 46342 0)) 46342 30
            = Inr (1, Some res)
          \<and> res \<noteq> replicate 46342 0)
   \<and> normalize_spec (map (cascade_spec PI 30 0.8 3 (detrend_spec (map real [0..<46342]))) [0..<46342])
       = replicate 46342 0"
proof -
  define n :: nat where "n = 46342"
  define ramp where "ramp = map real [0..<n]"
  define zeros :: "real list" where "zeros = replicate n 0"
  define F where "F = map (cascade_spec PI 30 0.8 3 (take n (detrend_signal ramp 46342))) [0..<n]"
  have n: "nat 46342 = n" "0 < n" "2 \<le> n" "length ramp = n" "length zeros = n"
    by (simp_all add: n_def ramp_def zeros_def)
  have len: "(0::int) < 46342" "46342 \<le> int (length ramp)" "46342 \<le> int (length zeros)"
    by (simp_all add: n n_def)
  have valid: "band_valid 30 0.8 3"
    by (simp add: band_valid_def)
  have "process_rppg_signals PI (Some ramp) (Some zeros) 46342 30
      = Inr (1, Some (normalize_spec
          (map (cascade_spec PI 30 0.8 3
                 (take (nat 46342) (detrend_signal (take (nat 46342) ramp @ drop (nat 46342) zeros) 46342)))
             [0..<nat 46342])
          @ drop (nat 46342) zeros))"
    by (rule process_steps(1) [OF len valid])
  then have run: "process_rppg_signals PI (Some ramp) (Some zeros) 46342 30
      = Inr (1, Some (normalize_spec F))"
    by (simp only: n(1)) (simp add: n F_def)
  have "F ! 0 = detrend_signal ramp 46342 ! 0"
    using n(2) by (simp add: F_def cascade_spec_first)
  then have "F ! 0 \<noteq> 0"
    using ramp_first_sample by (simp add: ramp_def n_def)
  moreover have "F \<noteq> []" "length F = n"
    using n(2) by (simp_all add: F_def)
  ultimately have "normalize_spec F \<noteq> replicate n 0"
    using normalize_spec_nonzero [of F] by simp
  then have code: "\<exists>res. process_rppg_signals PI (Some ramp) (Some zeros) 46342 30 = Inr (1, Some res)
      \<and> res \<noteq> replicate n 0"
    using run by simp
  have "normalize_spec (map (cascade_spec PI 30 0.8 3 (detrend_spec ramp)) [0..<n]) = replicate n 0"
    unfolding ramp_def detrend_spec_ramp [OF n(3)] cascade_spec_zero
    by (rule normalize_spec_zero [OF n(2)])
  then show ?thesis
    using code unfolding ramp_def zeros_def n_def by (rule conjI [rotated])
qed

end
